theory Spec2Isabelle
  imports Complex_Main
begin

section \<open>Data model (types/index.ts)\<close>

text \<open>
  JavaScript numbers that carry times, frequencies, amplitudes and accuracies are
  modelled as \<open>real\<close> (the IEEE rounding of each operation is idealised away);
  MIDI pitches, which \<open>@tonejs/midi\<close> and \<open>Math.round\<close> deliver as integers, are
  \<open>int\<close>; the counters \<open>combo\<close> and \<open>totalNotesHit\<close>, which only ever start at 0,
  are incremented by 1 or are reset to 0, are \<open>nat\<close>; the score, a sum of floors, is
  \<open>int\<close>.
\<close>

record MIDINote =
  pitch :: int
  velocity :: real
  time :: real
  duration :: real
  name :: string

datatype Difficulty = Easy | Medium | Hard

record Song =
  songId :: string
  title :: string
  artist :: string
  midiPath :: string
  vocalStemPath :: string
  instrumentalStemPath :: string
  songDuration :: real
  difficulty :: Difficulty
  bpm :: "real option"

record GameState =
  currentSong :: "Song option"
  score :: int
  combo :: nat
  isPlaying :: bool
  currentTime :: real
  accuracy :: real

section \<open>GameEngine state\<close>

text \<open>
  \<open>NoteEvent\<close> and the field \<open>events\<close> are a ghost trace, read by no operation:
  \<open>NoteHit i a\<close> is appended where \<open>checkPitchMatch\<close> calls \<open>processNoteHit(a)\<close> for
  note index \<open>i\<close>, \<open>NoteMiss i\<close> where \<open>updateActiveNotes\<close> calls \<open>processNoteMiss()\<close>
  for note index \<open>i\<close>. The trace is emptied wherever the source empties \<open>hitNotes\<close>
  (a successful \<open>loadSong\<close>, \<open>stopGame\<close>), so it lists the resolutions of the current
  play session.

  \<open>activeNotes\<close> is a JavaScript \<open>Set\<close>, which iterates in insertion order: a list
  without duplicates, new members appended. \<open>hitNotes\<close> is only tested for
  membership: a set. \<open>isListening\<close> is the flag of the engine's \<open>PitchDetector\<close>.
\<close>

datatype NoteEvent = NoteHit nat real | NoteMiss nat

fun eventIndex :: "NoteEvent \<Rightarrow> nat" where
  "eventIndex (NoteHit i a) = i"
| "eventIndex (NoteMiss i) = i"

record GameEngine =
  gameState :: GameState
  notes_list :: "MIDINote list"
  totalNotesHit :: nat
  totalAccuracy :: real
  currentPitch :: real
  currentMidiNote :: int
  activeNotes :: "nat list"
  hitNotes :: "nat set"
  isListening :: bool
  events :: "NoteEvent list"

datatype error = SongNotFound | LoadFailed | TypeError

definition HIT_WINDOW :: real where
  "HIT_WINDOW = 1 / 2"

definition PITCH_TOLERANCE :: int where
  "PITCH_TOLERANCE = 1"

definition MAX_PITCH_DIFF :: int where
  "MAX_PITCH_DIFF = PITCH_TOLERANCE + 1"

text \<open>The constructor.\<close>

definition newGameEngine :: GameEngine where
  "newGameEngine =
     \<lparr> gameState = \<lparr> currentSong = None, score = 0, combo = 0, isPlaying = False,
                       currentTime = 0, accuracy = 0 \<rparr>,
       notes_list = [], totalNotesHit = 0, totalAccuracy = 0, currentPitch = 0,
       currentMidiNote = 0, activeNotes = [], hitNotes = {}, isListening = False,
       events = [] \<rparr>"

text \<open>\<open>Set.prototype.add\<close> on the insertion-ordered set.\<close>

definition setAdd :: "nat list \<Rightarrow> nat \<Rightarrow> nat list" where
  "setAdd xs x = (if x \<in> set xs then xs else xs @ [x])"

section \<open>Scoring (GameEngine.processNoteHit, GameEngine.processNoteMiss)\<close>

definition hitPoints :: "real \<Rightarrow> nat \<Rightarrow> int" where
  "hitPoints acc c =
     (let baseScore = 100 :: int;
          accuracyBonus = \<lfloor>acc * 50\<rfloor>;
          comboMultiplier = min (real c / 10) 2
      in \<lfloor>real_of_int (baseScore + accuracyBonus) * (1 + comboMultiplier)\<rfloor>)"

definition processNoteHit :: "GameEngine \<Rightarrow> real \<Rightarrow> GameEngine" where
  "processNoteHit e acc =
     (let gs = gameState e;
          points = hitPoints acc (combo gs);
          n = totalNotesHit e + 1;
          ta = totalAccuracy e + acc
      in e\<lparr> gameState := gs\<lparr> score := score gs + points,
                               combo := combo gs + 1,
                               accuracy := ta / real n \<rparr>,
             totalNotesHit := n,
             totalAccuracy := ta \<rparr>)"

definition processNoteMiss :: "GameEngine \<Rightarrow> GameEngine" where
  "processNoteMiss e = e\<lparr> gameState := (gameState e)\<lparr> combo := 0 \<rparr> \<rparr>"

section \<open>Timeline (GameEngine.updateActiveNotes)\<close>

text \<open>
  \<open>Array.prototype.indexOf\<close>: the first position that holds the element searched for,
  \<open>-1\<close> when there is none. Objects are compared by identity, so the list searched is
  the list of the references held by the array.
\<close>

fun indexOf_from :: "nat \<Rightarrow> 'a list \<Rightarrow> 'a \<Rightarrow> int" where
  "indexOf_from k [] x = - 1"
| "indexOf_from k (y # ys) x = (if y = x then int k else indexOf_from (Suc k) ys x)"

definition indexOf :: "'a list \<Rightarrow> 'a \<Rightarrow> int" where
  "indexOf xs x = indexOf_from 0 xs x"

text \<open>
  The source iterates \<open>for (const note of this.notes)\<close> and recovers the position with
  \<open>this.notes.indexOf(note)\<close>. Every element of \<open>this.notes\<close> is a fresh object
  literal pushed by \<open>MIDIParser.getNotes\<close>, so the references in the array are pairwise
  distinct and \<open>indexOf\<close> returns the position of the element being visited (lemma
  \<open>indexOf_positions\<close> below): the loop runs over the pairs (position, note).
  \<open>currentTime\<close> is read once, before the loop.
\<close>

fun updateActiveNotes_loop :: "real \<Rightarrow> (nat \<times> MIDINote) list \<Rightarrow> GameEngine \<Rightarrow> GameEngine" where
  "updateActiveNotes_loop ct [] e = e"
| "updateActiveNotes_loop ct ((noteIndex, note) # rest) e =
     (if noteIndex \<in> hitNotes e then updateActiveNotes_loop ct rest e
      else
        let timeDiff = \<bar>time note - ct\<bar>;
            e1 = (if timeDiff \<le> HIT_WINDOW
                  then e\<lparr> activeNotes := setAdd (activeNotes e) noteIndex \<rparr>
                  else e);
            e2 = (if time note < ct - HIT_WINDOW \<and> noteIndex \<notin> hitNotes e1
                  then (processNoteMiss e1)
                         \<lparr> hitNotes := insert noteIndex (hitNotes e1),
                           events := events e1 @ [NoteMiss noteIndex] \<rparr>
                  else e1)
        in updateActiveNotes_loop ct rest e2)"

definition updateActiveNotes :: "GameEngine \<Rightarrow> GameEngine" where
  "updateActiveNotes e =
     updateActiveNotes_loop (currentTime (gameState e)) (enumerate 0 (notes_list e))
       (e\<lparr> activeNotes := [] \<rparr>)"

section \<open>Matching (GameEngine.checkPitchMatch)\<close>

text \<open>
  \<open>this.notes[noteIndex]\<close> is \<open>undefined\<close> for an index outside the array, and reading
  \<open>.pitch\<close> of it throws a \<open>TypeError\<close>: the \<open>Inl\<close> branch.
\<close>

fun checkPitchMatch_loop :: "int \<Rightarrow> nat list \<Rightarrow> GameEngine \<Rightarrow> error + GameEngine" where
  "checkPitchMatch_loop detectedMidiNote [] e = Inr e"
| "checkPitchMatch_loop detectedMidiNote (noteIndex # rest) e =
     (if length (notes_list e) \<le> noteIndex then Inl TypeError
      else
        let note = notes_list e ! noteIndex;
            pitchDiff = \<bar>pitch note - detectedMidiNote\<bar>
        in if pitchDiff \<le> PITCH_TOLERANCE \<and> noteIndex \<notin> hitNotes e
           then
             let acc = 1 - real_of_int pitchDiff / real_of_int MAX_PITCH_DIFF;
                 e1 = processNoteHit e acc
             in Inr (e1\<lparr> hitNotes := insert noteIndex (hitNotes e1),
                          events := events e1 @ [NoteHit noteIndex acc] \<rparr>)
           else checkPitchMatch_loop detectedMidiNote rest e)"

definition checkPitchMatch :: "GameEngine \<Rightarrow> int \<Rightarrow> error + GameEngine" where
  "checkPitchMatch e detectedMidiNote =
     checkPitchMatch_loop detectedMidiNote (activeNotes e) e"

section \<open>Loading and transport (GameEngine.loadSong, startGame, pauseGame, stopGame)\<close>

text \<open>
  \<open>MIDIParser.getNotes\<close> returns the notes of track 0 sorted by onset time with
  \<open>Array.prototype.sort\<close>, which is stable: \<open>sort_key\<close>, the stable insertion sort.
\<close>

definition getNotes :: "MIDINote list \<Rightarrow> MIDINote list" where
  "getNotes track = sort_key time track"

text \<open>
  The collaborators of \<open>loadSong\<close> are parameters: \<open>found\<close> is what
  \<open>songLoader.getSongById(songId)\<close> returns, \<open>midi\<close> is the note list of track 0 of the
  parsed file (\<open>None\<close> when \<open>loadMIDI\<close> throws), \<open>stemsLoaded\<close> says whether
  \<open>audioManager.loadStems\<close> returns normally. A throw leaves the engine as it was at
  the throw, so the result pairs the error, if any, with the engine; note that
  \<open>this.notes\<close> has already been replaced when \<open>loadStems\<close> throws.
\<close>

definition loadSong ::
  "GameEngine \<Rightarrow> Song option \<Rightarrow> MIDINote list option \<Rightarrow> bool \<Rightarrow> error option \<times> GameEngine" where
  "loadSong e found midi stemsLoaded =
     (case found of
        None \<Rightarrow> (Some SongNotFound, e)
      | Some song \<Rightarrow>
          (case midi of
             None \<Rightarrow> (Some LoadFailed, e)
           | Some track \<Rightarrow>
               let e1 = e\<lparr> notes_list := getNotes track \<rparr>
               in if \<not> stemsLoaded then (Some LoadFailed, e1)
                  else (None,
                        e1\<lparr> gameState := (gameState e1)\<lparr> currentSong := Some song,
                                                         score := 0,
                                                         combo := 0,
                                                         accuracy := 0 \<rparr>,
                            totalNotesHit := 0,
                            totalAccuracy := 0,
                            activeNotes := [],
                            hitNotes := {},
                            events := [] \<rparr>)))"

text \<open>
  \<open>startGame\<close> also starts the transport and the game loop and calls
  \<open>pitchDetector.startListening\<close>, which raises the detector's flag (the detector is
  taken as initialised, as it is after \<open>GameEngine.initialize\<close>).
\<close>

definition startGame :: "GameEngine \<Rightarrow> GameEngine" where
  "startGame e =
     (if currentSong (gameState e) = None then e
      else e\<lparr> gameState := (gameState e)\<lparr> isPlaying := True \<rparr>, isListening := True \<rparr>)"

definition pauseGame :: "GameEngine \<Rightarrow> GameEngine" where
  "pauseGame e = e\<lparr> gameState := (gameState e)\<lparr> isPlaying := False \<rparr>, isListening := False \<rparr>"

definition stopGame :: "GameEngine \<Rightarrow> GameEngine" where
  "stopGame e =
     e\<lparr> gameState := (gameState e)\<lparr> isPlaying := False, currentTime := 0 \<rparr>,
        isListening := False,
        activeNotes := [],
        hitNotes := {},
        events := [] \<rparr>"

text \<open>
  One frame of the game loop in which the frame time has elapsed: \<open>t\<close> is what
  \<open>audioManager.getCurrentTime()\<close> returns.
\<close>

definition updateGame :: "GameEngine \<Rightarrow> real \<Rightarrow> GameEngine" where
  "updateGame e t =
     (if \<not> isPlaying (gameState e) then e
      else updateActiveNotes (e\<lparr> gameState := (gameState e)\<lparr> currentTime := t \<rparr> \<rparr>))"

text \<open>The callback that \<open>startGame\<close> hands to the pitch detector.\<close>

definition pitchCallback :: "GameEngine \<Rightarrow> real \<Rightarrow> int \<Rightarrow> error + GameEngine" where
  "pitchCallback e frequency midiNote =
     checkPitchMatch (e\<lparr> currentPitch := frequency, currentMidiNote := midiNote \<rparr>) midiNote"

section \<open>PitchDetector\<close>

text \<open>
  \<open>Math.round\<close> returns the integer closest to its argument, and of two equally close
  ones the one nearer to plus infinity.
\<close>

definition Math_round :: "real \<Rightarrow> int" where
  "Math_round x = \<lfloor>x + 1 / 2\<rfloor>"

definition frequencyToMidi :: "real \<Rightarrow> int" where
  "frequencyToMidi frequency = Math_round (69 + 12 * log 2 (frequency / 440))"

definition sumSquares :: "real list \<Rightarrow> real" where
  "sumSquares buffer = foldl (\<lambda>acc x. acc + x * x) 0 buffer"

definition rms :: "real list \<Rightarrow> real" where
  "rms buffer = sqrt (sumSquares buffer / real (length buffer))"

definition correlationAt :: "real list \<Rightarrow> nat \<Rightarrow> real" where
  "correlationAt buffer lag =
     foldl (\<lambda>acc i. acc + buffer ! i * buffer ! (i + lag)) 0 [0 ..< length buffer - lag]"

definition correlations :: "real list \<Rightarrow> real list" where
  "correlations buffer = map (correlationAt buffer) [0 ..< length buffer]"

text \<open>
  The scan for the best lag: the loop state is \<open>foundGoodCorrelation\<close>, \<open>bestOffset\<close>
  (\<open>-1\<close> while none) and \<open>bestCorrelation\<close>; the first equation of the step is the
  \<open>break\<close>.
\<close>

fun scanOffsets :: "real list \<Rightarrow> nat list \<Rightarrow> bool \<Rightarrow> int \<Rightarrow> real \<Rightarrow> int \<times> real" where
  "scanOffsets cs [] foundGoodCorrelation bestOffset bestCorrelation =
     (bestOffset, bestCorrelation)"
| "scanOffsets cs (offset # rest) foundGoodCorrelation bestOffset bestCorrelation =
     (let correlation = cs ! offset;
          found = (if correlation > 0.9 \<and> correlation > cs ! (offset - 1)
                   then True else foundGoodCorrelation)
      in if found \<and> correlation < 0 then (bestOffset, bestCorrelation)
         else if correlation > bestCorrelation
              then scanOffsets cs rest found (int offset) correlation
              else scanOffsets cs rest found bestOffset bestCorrelation)"

text \<open>
  For an empty buffer \<open>rms\<close> is \<open>0/0\<close>, NaN in the source, and \<open>NaN < 0.01\<close> is false:
  the silence test only succeeds on a non-empty buffer. The no-pitch value is \<open>-1\<close>.
\<close>

definition autoCorrelate :: "real list \<Rightarrow> real \<Rightarrow> real" where
  "autoCorrelate buffer sampleRate =
     (let size = length buffer
      in if size \<noteq> 0 \<and> rms buffer < 0.01 then - 1
         else
           let (bestOffset, bestCorrelation) =
                 scanOffsets (correlations buffer) [1 ..< size] False (- 1) 0
           in if bestCorrelation > 0.01 \<and> bestOffset \<noteq> - 1
              then sampleRate / real_of_int bestOffset
              else - 1)"

text \<open>
  \<open>PitchDetector.detectPitch\<close> on one buffer of the analyser, with the engine's callback
  installed.
\<close>

definition detectPitch :: "GameEngine \<Rightarrow> real list \<Rightarrow> real \<Rightarrow> error + GameEngine" where
  "detectPitch e buffer sampleRate =
     (if \<not> isListening e then Inr e
      else
        let frequency = autoCorrelate buffer sampleRate
        in if frequency > 0
           then pitchCallback e frequency (frequencyToMidi frequency)
           else Inr e)"

section \<open>Play sessions\<close>

text \<open>
  The entry points through which the engine's state changes. An exception thrown inside
  the pitch callback leaves the engine as it was at the throw: with the detected pitch
  stored and nothing else changed. Each operation is taken as one step. \<open>loadSong\<close>
  awaits its collaborators between replacing the notes and resetting the state; frames
  and pitch samples that run in between see the engine that a load with failing stems
  leaves behind, so such an interleaving is the run of a failing load, the frames and
  samples, and then the successful load.
\<close>

datatype op =
    LoadSong "Song option" "MIDINote list option" bool
  | StartGame
  | PauseGame
  | StopGame
  | Frame real
  | DetectPitch "real list" real

fun step :: "GameEngine \<Rightarrow> op \<Rightarrow> GameEngine" where
  "step e (LoadSong found midi stemsLoaded) = snd (loadSong e found midi stemsLoaded)"
| "step e StartGame = startGame e"
| "step e PauseGame = pauseGame e"
| "step e StopGame = stopGame e"
| "step e (Frame t) = updateGame e t"
| "step e (DetectPitch buffer sampleRate) =
     (case detectPitch e buffer sampleRate of
        Inr e' \<Rightarrow> e'
      | Inl err \<Rightarrow>
          e\<lparr> currentPitch := autoCorrelate buffer sampleRate,
             currentMidiNote := frequencyToMidi (autoCorrelate buffer sampleRate) \<rparr>)"

definition run :: "GameEngine \<Rightarrow> op list \<Rightarrow> GameEngine" where
  "run e ops = foldl step e ops"

section \<open>Sessions and example data\<close>

text \<open>
  \<open>resets\<close> marks the operations that end a play session: a load, which replaces the
  notes and on success empties the resolution state, and a stop, which empties it.
\<close>

fun resets :: "op \<Rightarrow> bool" where
  "resets (LoadSong found midi stemsLoaded) = True"
| "resets StopGame = True"
| "resets StartGame = False"
| "resets PauseGame = False"
| "resets (Frame t) = False"
| "resets (DetectPitch buffer sampleRate) = False"

text \<open>
  Example data for the concrete runs: a song, a note with a given pitch and onset, the
  engine after a successful load of a track followed by \<open>startGame\<close>, the two-note
  session of the end-to-end scenario (the first note is sung at its onset, the second is
  left to expire), and an engine with two notes in the hit window.
\<close>

definition demoSong :: Song where
  "demoSong = \<lparr> songId = ''song1'', title = ''Song 1'', artist = ''Demo'',
                 midiPath = ''/songs/song1/melody.mid'',
                 vocalStemPath = ''/songs/song1/vocal.mp3'',
                 instrumentalStemPath = ''/songs/song1/instrumental.mp3'',
                 songDuration = 180, difficulty = Easy, bpm = Some 120 \<rparr>"

definition noteAt :: "int \<Rightarrow> real \<Rightarrow> MIDINote" where
  "noteAt p t = \<lparr> pitch = p, velocity = 1, time = t, duration = 1 / 4, name = ''note'' \<rparr>"

definition playing :: "MIDINote list \<Rightarrow> GameEngine" where
  "playing track = run newGameEngine [LoadSong (Some demoSong) (Some track) True, StartGame]"

definition demoSession :: "op list" where
  "demoSession =
     [LoadSong (Some demoSong) (Some [noteAt 69 1, noteAt 72 3]) True, StartGame,
      Frame 1, DetectPitch [1, 1] 440, Frame 4]"

definition twoActive :: GameEngine where
  "twoActive = updateGame (playing [noteAt 69 1, noteAt 70 (6 / 5)]) 1"

section \<open>Scoring: points and combo\<close>

text \<open>
  C2 (amended). On every hit with accuracy \<open>a\<close> and current combo \<open>c\<close> the score grows by
  \<open>floor((100 + floor(a * 50)) * (1 + min(c / 10, 2)))\<close> and the combo grows by exactly 1.
  A hit with accuracy 1 at combo 0 is worth 150 points (base 100 plus the accuracy bonus
  50) and makes the combo 1; a hit with accuracy 1 at combo 10 is worth 300 points.
\<close>

theorem processNoteHit_scoring:
  "score (gameState (processNoteHit e a)) =
     score (gameState e)
       + \<lfloor>real_of_int (100 + \<lfloor>a * 50\<rfloor>) * (1 + min (real (combo (gameState e)) / 10) 2)\<rfloor>
   \<and> combo (gameState (processNoteHit e a)) = combo (gameState e) + 1
   \<and> (combo (gameState e) = 0 \<longrightarrow>
        score (gameState (processNoteHit e 1)) = score (gameState e) + 150
        \<and> combo (gameState (processNoteHit e 1)) = 1)
   \<and> (combo (gameState e) = 10 \<longrightarrow>
        score (gameState (processNoteHit e 1)) = score (gameState e) + 300)"
  by (simp add: processNoteHit_def hitPoints_def Let_def)

theorem processNoteHit_scoring_witness:
  "combo (gameState newGameEngine) = 0
   \<and> score (gameState (processNoteHit newGameEngine 1)) = 150
   \<and> combo (gameState (processNoteHit newGameEngine 1)) = 1
   \<and> combo (gameState (newGameEngine\<lparr> gameState := (gameState newGameEngine)\<lparr> combo := 10 \<rparr> \<rparr>)) = 10
   \<and> score (gameState (processNoteHit
         (newGameEngine\<lparr> gameState := (gameState newGameEngine)\<lparr> combo := 10 \<rparr> \<rparr>) 1)) = 300"
  using processNoteHit_scoring [of newGameEngine 1]
    processNoteHit_scoring
      [of "newGameEngine\<lparr> gameState := (gameState newGameEngine)\<lparr> combo := 10 \<rparr> \<rparr>" 1]
  by (simp add: newGameEngine_def)

text \<open>
  The first hit of a fresh engine, with accuracy 1 at combo 0, does not add 100 points.
\<close>

theorem processNoteHit_first_hit_counterexample:
  "combo (gameState newGameEngine) = 0
   \<and> score (gameState (processNoteHit newGameEngine 1)) - score (gameState newGameEngine) \<noteq> 100"
  by (simp add: processNoteHit_def hitPoints_def newGameEngine_def Let_def)

section \<open>The note quantizer\<close>

lemma log2_half: "log 2 (1 / 2) = - 1"
proof -
  have "log 2 (1 / 2) = log 2 1 - log 2 2"
    by (simp add: log_divide)
  then show ?thesis by simp
qed

lemma frequencyToMidi_A4: "frequencyToMidi 440 = 69"
  by (simp add: frequencyToMidi_def Math_round_def)

lemma frequencyToMidi_A3: "frequencyToMidi 220 = 57"
proof -
  have "(220::real) / 440 = 1 / 2" by simp
  then show ?thesis
    by (simp add: frequencyToMidi_def Math_round_def log2_half)
qed

lemma frequencyToMidi_Bb4: "frequencyToMidi (440 * 2 powr (1 / 12)) = 70"
proof -
  have "log 2 (440 * 2 powr (1 / 12) / 440) = 1 / 12"
    by simp
  then show ?thesis
    unfolding frequencyToMidi_def Math_round_def by simp
qed

text \<open>
  C7. For every positive frequency \<open>f\<close> the quantizer returns
  \<open>round(69 + 12 * log2(f / 440))\<close>, an integer; 440 Hz is note 69, a semitone above it
  is note 70, and 220 Hz is note 57. (The function is a total, pure definition.)
\<close>

theorem frequencyToMidi_round:
  "0 < f \<Longrightarrow>
     frequencyToMidi f = round (69 + 12 * log 2 (f / 440))
     \<and> frequencyToMidi 440 = 69
     \<and> frequencyToMidi (440 * 2 powr (1 / 12)) = 70
     \<and> frequencyToMidi 220 = 57"
  using frequencyToMidi_A4 frequencyToMidi_A3 frequencyToMidi_Bb4
  by (simp add: frequencyToMidi_def Math_round_def round_def)

theorem frequencyToMidi_round_witness:
  "(0::real) < 880 \<and> frequencyToMidi 880 = round (69 + 12 * log 2 (880 / 440))
   \<and> frequencyToMidi 880 = 81"
proof -
  have pos: "(0::real) < 880" by simp
  have "log 2 (880 / 440) = log 2 2" by simp
  then have "round (69 + 12 * log 2 (880 / 440)) = (81::int)"
    by (simp add: round_def)
  with frequencyToMidi_round [OF pos] pos show ?thesis by simp
qed

section \<open>The frequency estimator\<close>

lemma scanOffsets_Cons:
  "scanOffsets cs (offset # rest) f bo bc =
     (if ((cs ! offset > 0.9 \<and> cs ! offset > cs ! (offset - 1)) \<or> f) \<and> cs ! offset < 0
      then (bo, bc)
      else if cs ! offset > bc
           then scanOffsets cs rest ((cs ! offset > 0.9 \<and> cs ! offset > cs ! (offset - 1)) \<or> f)
                  (int offset) (cs ! offset)
           else scanOffsets cs rest ((cs ! offset > 0.9 \<and> cs ! offset > cs ! (offset - 1)) \<or> f)
                  bo bc)"
  by (auto simp: Let_def)

lemma scanOffsets_result:
  "\<forall>k\<in>set offsets. 1 \<le> k \<and> k < n \<Longrightarrow>
   (bo = - 1 \<and> bc = 0) \<or> (1 \<le> bo \<and> bo < int n \<and> bc = cs ! nat bo \<and> 0 < bc) \<Longrightarrow>
   scanOffsets cs offsets found bo bc = (bo', bc') \<Longrightarrow>
   (bo' = - 1 \<and> bc' = 0) \<or> (1 \<le> bo' \<and> bo' < int n \<and> bc' = cs ! nat bo' \<and> 0 < bc')"
proof (induction offsets arbitrary: found bo bc)
  case Nil
  then show ?case by simp
next
  case (Cons offset rest)
  let ?found = "(cs ! offset > 0.9 \<and> cs ! offset > cs ! (offset - 1)) \<or> found"
  from Cons.prems(1) have off: "1 \<le> offset" "offset < n"
    and rest: "\<forall>k\<in>set rest. 1 \<le> k \<and> k < n"
    by simp_all
  have nonneg: "0 \<le> bc" using Cons.prems(2) by auto
  consider (brk) "?found \<and> cs ! offset < 0"
    | (better) "\<not> (?found \<and> cs ! offset < 0)" "cs ! offset > bc"
    | (keep) "\<not> (?found \<and> cs ! offset < 0)" "\<not> cs ! offset > bc"
    by blast
  then show ?case
  proof cases
    case brk
    have "scanOffsets cs (offset # rest) found bo bc = (bo, bc)"
      by (simp only: scanOffsets_Cons if_P [OF brk])
    with Cons.prems(3) have "bo' = bo" "bc' = bc"
      by simp_all
    with Cons.prems(2) show ?thesis by simp
  next
    case better
    have "scanOffsets cs (offset # rest) found bo bc
            = scanOffsets cs rest ?found (int offset) (cs ! offset)"
      by (simp only: scanOffsets_Cons if_not_P [OF better(1)] if_P [OF better(2)])
    with Cons.prems(3) have run: "scanOffsets cs rest ?found (int offset) (cs ! offset) = (bo', bc')"
      by simp
    have "(int offset = - 1 \<and> cs ! offset = 0)
          \<or> (1 \<le> int offset \<and> int offset < int n
               \<and> cs ! offset = cs ! nat (int offset) \<and> 0 < cs ! offset)"
      using off better(2) nonneg by simp
    from Cons.IH [OF rest this run] show ?thesis .
  next
    case keep
    have "scanOffsets cs (offset # rest) found bo bc = scanOffsets cs rest ?found bo bc"
      by (simp only: scanOffsets_Cons if_not_P [OF keep(1)] if_not_P [OF keep(2)])
    with Cons.prems(3) have run: "scanOffsets cs rest ?found bo bc = (bo', bc')"
      by simp
    from Cons.IH [OF rest Cons.prems(2) run] show ?thesis .
  qed
qed

lemma autoCorrelate_cases:
  "autoCorrelate buffer sampleRate =
     (if buffer \<noteq> [] \<and> rms buffer < 0.01 then - 1
      else if snd (scanOffsets (correlations buffer) [1 ..< length buffer] False (- 1) 0) > 0.01
              \<and> fst (scanOffsets (correlations buffer) [1 ..< length buffer] False (- 1) 0) \<noteq> - 1
           then sampleRate
                  / real_of_int
                      (fst (scanOffsets (correlations buffer) [1 ..< length buffer] False (- 1) 0))
           else - 1)"
  by (simp add: autoCorrelate_def Let_def split_beta)

lemma upt_1_2: "[1 ..< 2] = [1::nat]" "[0 ..< 2] = [0, 1::nat]" "[0 ..< 1] = [0::nat]"
  by (simp_all add: upt_rec)

lemma autoCorrelate_ones: "autoCorrelate [1, 1] sr = sr"
  by (simp add: autoCorrelate_cases rms_def sumSquares_def correlations_def correlationAt_def
        upt_1_2)

lemma autoCorrelate_silence: "autoCorrelate [0, 0] sr = - 1"
  by (simp add: autoCorrelate_cases rms_def sumSquares_def)

lemma autoCorrelate_alternating: "autoCorrelate [1, - 1] sr = - 1"
  by (simp add: autoCorrelate_cases rms_def sumSquares_def correlations_def correlationAt_def
        upt_1_2)

text \<open>
  C6. For every sample buffer and every positive sample rate the estimator returns either
  the no-pitch value \<open>-1\<close> or a strictly positive frequency; it is a total function
  with no error result. On a non-empty buffer with RMS below 0.01 it returns \<open>-1\<close>.
  Otherwise it returns \<open>sampleRate / bestOffset\<close> when the scan ends with
  \<open>bestCorrelation > 0.01\<close> and a best offset, which is then a lag from 1 up to the
  buffer length whose correlation is \<open>bestCorrelation\<close>, and \<open>-1\<close> when it does not.
\<close>

theorem autoCorrelate_total:
  "0 < sampleRate \<Longrightarrow>
   (autoCorrelate buffer sampleRate = - 1 \<or> 0 < autoCorrelate buffer sampleRate)
   \<and> (buffer \<noteq> [] \<and> rms buffer < 0.01 \<longrightarrow> autoCorrelate buffer sampleRate = - 1)
   \<and> (\<not> (buffer \<noteq> [] \<and> rms buffer < 0.01) \<longrightarrow>
        (case scanOffsets (correlations buffer) [1 ..< length buffer] False (- 1) 0 of
           (bestOffset, bestCorrelation) \<Rightarrow>
             (bestCorrelation > 0.01 \<and> bestOffset \<noteq> - 1 \<longrightarrow>
                autoCorrelate buffer sampleRate = sampleRate / real_of_int bestOffset
                \<and> 1 \<le> bestOffset \<and> bestOffset < int (length buffer)
                \<and> bestCorrelation = correlations buffer ! nat bestOffset)
             \<and> (\<not> (bestCorrelation > 0.01 \<and> bestOffset \<noteq> - 1) \<longrightarrow>
                  autoCorrelate buffer sampleRate = - 1)))"
proof -
  assume sr: "0 < sampleRate"
  obtain bo bc where
    scan: "scanOffsets (correlations buffer) [1 ..< length buffer] False (- 1) 0 = (bo, bc)"
    by (cases "scanOffsets (correlations buffer) [1 ..< length buffer] False (- 1) 0")
  have inv: "(bo = - 1 \<and> bc = 0)
             \<or> (1 \<le> bo \<and> bo < int (length buffer) \<and> bc = correlations buffer ! nat bo \<and> 0 < bc)"
    by (rule scanOffsets_result [OF _ _ scan]) auto
  have "0 < sampleRate / real_of_int bo" if "bo \<noteq> - 1"
    using inv that sr by auto
  with inv show ?thesis
    unfolding autoCorrelate_cases scan by auto
qed

theorem autoCorrelate_total_witness:
  "(0 :: real) < 44100
   \<and> autoCorrelate [1, 1] 44100 = 44100 \<and> 0 < autoCorrelate [1, 1] 44100
   \<and> ([0, 0 :: real] \<noteq> [] \<and> rms [0, 0] < 0.01) \<and> autoCorrelate [0, 0] 44100 = - 1
   \<and> \<not> ([1, - 1 :: real] \<noteq> [] \<and> rms [1, - 1] < 0.01) \<and> autoCorrelate [1, - 1] 44100 = - 1"
proof -
  have sr: "(0 :: real) < 44100" by simp
  have loud: "\<not> ([1, - 1 :: real] \<noteq> [] \<and> rms [1, - 1] < 0.01)"
    and quiet: "[0, 0 :: real] \<noteq> [] \<and> rms [0, 0] < 0.01"
    by (simp_all add: rms_def sumSquares_def)
  from autoCorrelate_total [OF sr, of "[1, 1]"] autoCorrelate_total [OF sr, of "[0, 0]"]
    autoCorrelate_total [OF sr, of "[1, - 1]"]
  show ?thesis
    using sr loud quiet
    by (simp add: autoCorrelate_ones autoCorrelate_silence autoCorrelate_alternating)
qed

section \<open>The note timeline\<close>

lemma indexOf_from_nth:
  "distinct xs \<Longrightarrow> i < length xs \<Longrightarrow> indexOf_from k xs (xs ! i) = int (k + i)"
proof (induction xs arbitrary: k i)
  case Nil
  then show ?case by simp
next
  case (Cons y ys)
  show ?case
  proof (cases i)
    case 0
    then show ?thesis by simp
  next
    case (Suc j)
    with Cons.prems have "ys ! j \<noteq> y" "j < length ys" "distinct ys"
      by auto
    with Cons.IH [of j "Suc k"] Suc show ?thesis
      by auto
  qed
qed

lemma indexOf_positions:
  "distinct refs \<Longrightarrow> map (indexOf refs) refs = map int [0 ..< length refs]"
  by (rule nth_equalityI) (simp_all add: indexOf_def indexOf_from_nth)

lemma updateActiveNotes_loop_frame:
  "notes_list (updateActiveNotes_loop ct ps e) = notes_list e
   \<and> totalNotesHit (updateActiveNotes_loop ct ps e) = totalNotesHit e
   \<and> totalAccuracy (updateActiveNotes_loop ct ps e) = totalAccuracy e
   \<and> currentPitch (updateActiveNotes_loop ct ps e) = currentPitch e
   \<and> currentMidiNote (updateActiveNotes_loop ct ps e) = currentMidiNote e
   \<and> isListening (updateActiveNotes_loop ct ps e) = isListening e
   \<and> score (gameState (updateActiveNotes_loop ct ps e)) = score (gameState e)
   \<and> accuracy (gameState (updateActiveNotes_loop ct ps e)) = accuracy (gameState e)
   \<and> currentTime (gameState (updateActiveNotes_loop ct ps e)) = currentTime (gameState e)
   \<and> isPlaying (gameState (updateActiveNotes_loop ct ps e)) = isPlaying (gameState e)
   \<and> currentSong (gameState (updateActiveNotes_loop ct ps e)) = currentSong (gameState e)"
  by (induction ct ps e rule: updateActiveNotes_loop.induct)
     (simp_all add: Let_def processNoteMiss_def)

lemma filter_fresh_index:
  "k \<notin> fst ` set ps \<Longrightarrow> filter (\<lambda>a. fst a \<noteq> k \<and> P a) ps = filter P ps"
  by (rule filter_cong) auto

lemma updateActiveNotes_loop_hitNotes:
  "distinct (map fst ps) \<Longrightarrow>
   hitNotes (updateActiveNotes_loop ct ps e) =
     hitNotes e
       \<union> fst ` set (filter (\<lambda>p. fst p \<notin> hitNotes e \<and> time (snd p) < ct - HIT_WINDOW) ps)"
proof (induction ct ps e rule: updateActiveNotes_loop.induct)
  case (1 ct e)
  then show ?case by simp
next
  case (2 ct noteIndex nt rest e)
  then show ?case
    by (auto simp: Let_def processNoteMiss_def filter_fresh_index)
qed

lemma updateActiveNotes_loop_events:
  "distinct (map fst ps) \<Longrightarrow>
   events (updateActiveNotes_loop ct ps e) =
     events e
       @ map (\<lambda>p. NoteMiss (fst p))
           (filter (\<lambda>p. fst p \<notin> hitNotes e \<and> time (snd p) < ct - HIT_WINDOW) ps)"
proof (induction ct ps e rule: updateActiveNotes_loop.induct)
  case (1 ct e)
  then show ?case by simp
next
  case (2 ct noteIndex nt rest e)
  then show ?case
    by (auto simp: Let_def processNoteMiss_def filter_fresh_index)
qed

lemma updateActiveNotes_loop_activeNotes:
  "distinct (map fst ps) \<Longrightarrow> set (activeNotes e) \<inter> fst ` set ps = {} \<Longrightarrow>
   activeNotes (updateActiveNotes_loop ct ps e) =
     activeNotes e
       @ map fst (filter (\<lambda>p. fst p \<notin> hitNotes e \<and> \<bar>time (snd p) - ct\<bar> \<le> HIT_WINDOW) ps)"
proof (induction ct ps e rule: updateActiveNotes_loop.induct)
  case (1 ct e)
  then show ?case by simp
next
  case (2 ct noteIndex nt rest e)
  then show ?case
    by (auto simp: Let_def processNoteMiss_def filter_fresh_index setAdd_def)
qed

lemma enumerate_indexed:
  "enumerate 0 ns = map (\<lambda>i. (i, ns ! i)) [0 ..< length ns]"
proof (rule nth_equalityI)
  show "length (enumerate 0 ns) = length (map (\<lambda>i. (i, ns ! i)) [0 ..< length ns])"
    by simp
next
  fix i assume "i < length (enumerate 0 ns)"
  then show "enumerate 0 ns ! i = map (\<lambda>i. (i, ns ! i)) [0 ..< length ns] ! i"
    by (simp add: nth_enumerate_eq)
qed

lemma filter_enumerate:
  "map fst (filter P (enumerate 0 ns)) = filter (\<lambda>i. P (i, ns ! i)) [0 ..< length ns]"
  by (simp add: enumerate_indexed filter_map comp_def)

lemma updateActiveNotes_activeNotes:
  "activeNotes (updateActiveNotes e) =
     filter (\<lambda>i. i \<notin> hitNotes e
                 \<and> \<bar>time (notes_list e ! i) - currentTime (gameState e)\<bar> \<le> HIT_WINDOW)
       [0 ..< length (notes_list e)]"
  by (simp add: updateActiveNotes_def updateActiveNotes_loop_activeNotes filter_enumerate)

lemma updateActiveNotes_hitNotes:
  "hitNotes (updateActiveNotes e) =
     hitNotes e
       \<union> {i. i < length (notes_list e) \<and> i \<notin> hitNotes e
              \<and> time (notes_list e ! i) < currentTime (gameState e) - HIT_WINDOW}"
proof -
  have "fst ` set (filter P (enumerate 0 ns)) = {i. i < length ns \<and> P (i, ns ! i)}"
    for P and ns :: "MIDINote list"
  proof -
    have "fst ` set (filter P (enumerate 0 ns)) = set (map fst (filter P (enumerate 0 ns)))"
      by simp
    also have "\<dots> = {i. i < length ns \<and> P (i, ns ! i)}"
      unfolding filter_enumerate by auto
    finally show ?thesis .
  qed
  then show ?thesis
    by (simp add: updateActiveNotes_def updateActiveNotes_loop_hitNotes)
qed

lemma updateActiveNotes_events:
  "events (updateActiveNotes e) =
     events e
       @ map NoteMiss
           (filter (\<lambda>i. i \<notin> hitNotes e
                        \<and> time (notes_list e ! i) < currentTime (gameState e) - HIT_WINDOW)
              [0 ..< length (notes_list e)])"
proof -
  have "map (\<lambda>p. NoteMiss (fst p)) (filter P (enumerate 0 ns))
          = map NoteMiss (filter (\<lambda>i. P (i, ns ! i)) [0 ..< length ns])"
    for P and ns :: "MIDINote list"
    using filter_enumerate [of P ns, THEN arg_cong, of "map NoteMiss"]
    by (simp add: comp_def)
  then show ?thesis
    by (simp add: updateActiveNotes_def updateActiveNotes_loop_events)
qed

lemma updateActiveNotes_frame:
  "notes_list (updateActiveNotes e) = notes_list e
   \<and> totalNotesHit (updateActiveNotes e) = totalNotesHit e
   \<and> totalAccuracy (updateActiveNotes e) = totalAccuracy e
   \<and> currentPitch (updateActiveNotes e) = currentPitch e
   \<and> currentMidiNote (updateActiveNotes e) = currentMidiNote e
   \<and> isListening (updateActiveNotes e) = isListening e
   \<and> score (gameState (updateActiveNotes e)) = score (gameState e)
   \<and> accuracy (gameState (updateActiveNotes e)) = accuracy (gameState e)
   \<and> currentTime (gameState (updateActiveNotes e)) = currentTime (gameState e)
   \<and> isPlaying (gameState (updateActiveNotes e)) = isPlaying (gameState e)
   \<and> currentSong (gameState (updateActiveNotes e)) = currentSong (gameState e)"
  unfolding updateActiveNotes_def
  using updateActiveNotes_loop_frame
          [of "currentTime (gameState e)" "enumerate 0 (notes_list e)" "e\<lparr> activeNotes := [] \<rparr>"]
  by simp

text \<open>
  C9. Processing a miss sets the combo to 0 and changes nothing else: score, running
  average accuracy, its two accumulators, current time, playing flag and current song
  keep their values, and so does every other field of the engine. The misses processed
  by an expiry evaluation therefore leave the score, the running average and its
  accumulators as they were: only hits enter the average.
\<close>

theorem processNoteMiss_frame:
  "combo (gameState (processNoteMiss e)) = 0
   \<and> score (gameState (processNoteMiss e)) = score (gameState e)
   \<and> accuracy (gameState (processNoteMiss e)) = accuracy (gameState e)
   \<and> currentTime (gameState (processNoteMiss e)) = currentTime (gameState e)
   \<and> isPlaying (gameState (processNoteMiss e)) = isPlaying (gameState e)
   \<and> currentSong (gameState (processNoteMiss e)) = currentSong (gameState e)
   \<and> totalNotesHit (processNoteMiss e) = totalNotesHit e
   \<and> totalAccuracy (processNoteMiss e) = totalAccuracy e
   \<and> processNoteMiss e = e\<lparr> gameState := (gameState e)\<lparr> combo := 0 \<rparr> \<rparr>
   \<and> score (gameState (updateActiveNotes e)) = score (gameState e)
   \<and> accuracy (gameState (updateActiveNotes e)) = accuracy (gameState e)
   \<and> totalNotesHit (updateActiveNotes e) = totalNotesHit e
   \<and> totalAccuracy (updateActiveNotes e) = totalAccuracy e"
  using updateActiveNotes_frame [of e] by (simp add: processNoteMiss_def)

lemma noteAt_fields [simp]: "time (noteAt p t) = t" "pitch (noteAt p t) = p"
  by (simp_all add: noteAt_def)

lemma playing_two:
  "t1 \<le> t2 \<Longrightarrow>
   playing [noteAt p1 t1, noteAt p2 t2] =
     \<lparr> gameState = \<lparr> currentSong = Some demoSong, score = 0, combo = 0, isPlaying = True,
                       currentTime = 0, accuracy = 0 \<rparr>,
       notes_list = [noteAt p1 t1, noteAt p2 t2], totalNotesHit = 0, totalAccuracy = 0,
       currentPitch = 0, currentMidiNote = 0, activeNotes = [], hitNotes = {},
       isListening = True, events = [] \<rparr>"
  by (simp add: playing_def run_def loadSong_def startGame_def newGameEngine_def getNotes_def
        noteAt_def Let_def)

text \<open>
  C5. For every loaded note sequence and every current time, the recomputed active set
  consists of exactly the indices of the notes that are unresolved and whose onset is
  within 0.5 s of the current time, in ascending order. With onsets 1.0 and 1.2 the
  active set at time 1.0 holds both indices, and at time 2.0 it holds none.
\<close>

theorem updateActiveNotes_active_set:
  "activeNotes (updateActiveNotes e) =
     filter (\<lambda>i. i \<notin> hitNotes e
                 \<and> \<bar>time (notes_list e ! i) - currentTime (gameState e)\<bar> \<le> 1 / 2)
       [0 ..< length (notes_list e)]
   \<and> set (activeNotes (updateActiveNotes e)) =
       {i. i < length (notes_list e) \<and> i \<notin> hitNotes (updateActiveNotes e)
           \<and> \<bar>time (notes_list e ! i) - currentTime (gameState e)\<bar> \<le> 1 / 2}
   \<and> activeNotes (updateGame (playing [noteAt 60 1, noteAt 64 (6 / 5)]) 1) = [0, 1]
   \<and> activeNotes (updateGame (playing [noteAt 60 1, noteAt 64 (6 / 5)]) 2) = []"
proof -
  have 1: "activeNotes (updateActiveNotes e) =
     filter (\<lambda>i. i \<notin> hitNotes e
                 \<and> \<bar>time (notes_list e ! i) - currentTime (gameState e)\<bar> \<le> 1 / 2)
       [0 ..< length (notes_list e)]" for e
    using updateActiveNotes_activeNotes [of e] by (simp add: HIT_WINDOW_def)
  have 2: "set (activeNotes (updateActiveNotes e)) =
       {i. i < length (notes_list e) \<and> i \<notin> hitNotes (updateActiveNotes e)
           \<and> \<bar>time (notes_list e ! i) - currentTime (gameState e)\<bar> \<le> 1 / 2}"
    unfolding 1 updateActiveNotes_hitNotes HIT_WINDOW_def by auto
  have 3: "activeNotes (updateGame (playing [noteAt 60 1, noteAt 64 (6 / 5)]) 1) = [0, 1]"
    by (simp add: updateGame_def 1 playing_two)
  have 4: "activeNotes (updateGame (playing [noteAt 60 1, noteAt 64 (6 / 5)]) 2) = []"
    by (simp add: updateGame_def 1 playing_two)
  from 1 2 3 4 show ?thesis by blast
qed

section \<open>Matching a pitch sample\<close>

lemma checkPitchMatch_loop_filter:
  "\<forall>i\<in>set xs. i < length (notes_list e) \<Longrightarrow>
   checkPitchMatch_loop d xs e =
     Inr (case filter (\<lambda>i. i \<notin> hitNotes e \<and> \<bar>pitch (notes_list e ! i) - d\<bar> \<le> 1) xs of
            [] \<Rightarrow> e
          | i # rest \<Rightarrow>
              (processNoteHit e (1 - real_of_int \<bar>pitch (notes_list e ! i) - d\<bar> / 2))
                \<lparr> hitNotes := insert i (hitNotes e),
                  events := events e
                    @ [NoteHit i (1 - real_of_int \<bar>pitch (notes_list e ! i) - d\<bar> / 2)] \<rparr>)"
proof (induction xs)
  case Nil
  then show ?case by simp
next
  case (Cons x xs)
  then show ?case
    by (simp add: Let_def PITCH_TOLERANCE_def MAX_PITCH_DIFF_def processNoteHit_def)
qed

lemma hd_filter_sorted_Min:
  fixes xs :: "nat list"
  assumes "sorted xs" "filter P xs \<noteq> []"
  shows "hd (filter P xs) = Min (set (filter P xs))"
proof -
  have s: "sorted (filter P xs)" using assms(1) by (rule sorted_wrt_filter)
  obtain y ys where ys: "filter P xs = y # ys"
    using assms(2) by (cases "filter P xs") auto
  with s have "\<forall>z\<in>set ys. y \<le> z" by simp
  then have "Min (set (y # ys)) = y"
    by (intro Min_eqI) auto
  with ys show ?thesis by simp
qed

lemma processNoteHit_frame:
  "hitNotes (processNoteHit e a) = hitNotes e"
  "events (processNoteHit e a) = events e"
  "notes_list (processNoteHit e a) = notes_list e"
  "activeNotes (processNoteHit e a) = activeNotes e"
  "isListening (processNoteHit e a) = isListening e"
  "currentPitch (processNoteHit e a) = currentPitch e"
  "currentMidiNote (processNoteHit e a) = currentMidiNote e"
  "isPlaying (gameState (processNoteHit e a)) = isPlaying (gameState e)"
  "currentTime (gameState (processNoteHit e a)) = currentTime (gameState e)"
  "currentSong (gameState (processNoteHit e a)) = currentSong (gameState e)"
  by (simp_all add: processNoteHit_def Let_def)

lemma updateActiveNotes_sorted_in_range:
  "sorted (activeNotes (updateActiveNotes e))
   \<and> (\<forall>i\<in>set (activeNotes (updateActiveNotes e)). i < length (notes_list (updateActiveNotes e)))"
proof -
  have "sorted (filter P [0 ..< n])" for P and n :: nat
    by (rule sorted_wrt_filter) simp
  then show ?thesis
    using updateActiveNotes_frame [of e]
    by (simp add: updateActiveNotes_activeNotes)
qed

text \<open>
  C1. A pitch sample \<open>d\<close> is processed against the active set. The candidates are the
  members of the active set that are unresolved and whose pitch differs from \<open>d\<close> by at
  most 1, in the iteration order of the active set. The engine resolves the first
  candidate, with accuracy \<open>1 - pitchDiff / 2\<close>, and no other note; without a candidate
  the state is unchanged. The active set is kept in ascending order, so the first
  candidate is the one with the lowest timeline position; and when the active set has
  just been recomputed, the candidates are exactly the unresolved notes within the hit
  window whose pitch is within the tolerance.
\<close>

theorem checkPitchMatch_first_candidate:
  "\<forall>i\<in>set (activeNotes e). i < length (notes_list e) \<Longrightarrow>
   (let cands = filter (\<lambda>i. i \<notin> hitNotes e \<and> \<bar>pitch (notes_list e ! i) - d\<bar> \<le> 1)
                  (activeNotes e)
    in checkPitchMatch e d =
         Inr (case cands of
                [] \<Rightarrow> e
              | i # rest \<Rightarrow>
                  (processNoteHit e (1 - real_of_int \<bar>pitch (notes_list e ! i) - d\<bar> / 2))
                    \<lparr> hitNotes := insert i (hitNotes e),
                      events := events e
                        @ [NoteHit i (1 - real_of_int \<bar>pitch (notes_list e ! i) - d\<bar> / 2)] \<rparr>)
       \<and> (sorted (activeNotes e) \<and> cands \<noteq> [] \<longrightarrow> hd cands = Min (set cands))
       \<and> (\<forall>e'. checkPitchMatch e d = Inr e' \<longrightarrow>
             hitNotes e' - hitNotes e \<subseteq> set (take 1 cands)
             \<and> (cands = [] \<longrightarrow> e' = e))
       \<and> (e = updateActiveNotes e0 \<longrightarrow>
             sorted (activeNotes e)
             \<and> set cands =
                 {i. i < length (notes_list e) \<and> i \<notin> hitNotes e
                     \<and> \<bar>time (notes_list e ! i) - currentTime (gameState e)\<bar> \<le> 1 / 2
                     \<and> \<bar>pitch (notes_list e ! i) - d\<bar> \<le> 1}))"
proof -
  assume inrange: "\<forall>i\<in>set (activeNotes e). i < length (notes_list e)"
  define cands where
    "cands = filter (\<lambda>i. i \<notin> hitNotes e \<and> \<bar>pitch (notes_list e ! i) - d\<bar> \<le> 1) (activeNotes e)"
  have res: "checkPitchMatch e d =
         Inr (case cands of
                [] \<Rightarrow> e
              | i # rest \<Rightarrow>
                  (processNoteHit e (1 - real_of_int \<bar>pitch (notes_list e ! i) - d\<bar> / 2))
                    \<lparr> hitNotes := insert i (hitNotes e),
                      events := events e
                        @ [NoteHit i (1 - real_of_int \<bar>pitch (notes_list e ! i) - d\<bar> / 2)] \<rparr>)"
    unfolding checkPitchMatch_def cands_def
    by (rule checkPitchMatch_loop_filter [OF inrange])
  have first: "hd cands = Min (set cands)" if "sorted (activeNotes e)" "cands \<noteq> []"
    using that unfolding cands_def by (rule hd_filter_sorted_Min)
  have one: "hitNotes e' - hitNotes e \<subseteq> set (take 1 cands) \<and> (cands = [] \<longrightarrow> e' = e)"
    if "checkPitchMatch e d = Inr e'" for e'
    using that unfolding res
    by (cases cands) (auto simp: processNoteHit_frame)
  have snap: "sorted (activeNotes e)
             \<and> set cands =
                 {i. i < length (notes_list e) \<and> i \<notin> hitNotes e
                     \<and> \<bar>time (notes_list e ! i) - currentTime (gameState e)\<bar> \<le> 1 / 2
                     \<and> \<bar>pitch (notes_list e ! i) - d\<bar> \<le> 1}"
    if e: "e = updateActiveNotes e0"
  proof -
    have fr: "notes_list e = notes_list e0" "currentTime (gameState e) = currentTime (gameState e0)"
      using updateActiveNotes_frame [of e0] unfolding e by simp_all
    have "set cands =
            {i. i < length (notes_list e0) \<and> i \<notin> hitNotes e
                \<and> \<bar>time (notes_list e0 ! i) - currentTime (gameState e0)\<bar> \<le> 1 / 2
                \<and> \<bar>pitch (notes_list e0 ! i) - d\<bar> \<le> 1}"
      unfolding cands_def fr
      unfolding e updateActiveNotes_activeNotes updateActiveNotes_hitNotes updateActiveNotes_frame
        HIT_WINDOW_def
      by auto
    then show ?thesis
      using updateActiveNotes_sorted_in_range [of e0] unfolding fr e [symmetric] by simp
  qed
  show ?thesis
    unfolding Let_def cands_def [symmetric]
    using res first one snap by blast
qed

lemma twoActive_state:
  "twoActive =
     \<lparr> gameState = \<lparr> currentSong = Some demoSong, score = 0, combo = 0, isPlaying = True,
                       currentTime = 1, accuracy = 0 \<rparr>,
       notes_list = [noteAt 69 1, noteAt 70 (6 / 5)], totalNotesHit = 0, totalAccuracy = 0,
       currentPitch = 0, currentMidiNote = 0, activeNotes = [0, 1], hitNotes = {},
       isListening = True, events = [] \<rparr>"
  by (simp add: twoActive_def playing_two updateGame_def updateActiveNotes_def Let_def setAdd_def
        HIT_WINDOW_def processNoteMiss_def)

lemma twoActive_snapshot:
  "twoActive = updateActiveNotes
     ((playing [noteAt 69 1, noteAt 70 (6 / 5)])
        \<lparr> gameState := (gameState (playing [noteAt 69 1, noteAt 70 (6 / 5)]))
                          \<lparr> currentTime := 1 \<rparr> \<rparr>)"
  by (simp add: twoActive_def updateGame_def playing_two)

theorem checkPitchMatch_first_candidate_witness:
  "activeNotes twoActive = [0, 1] \<and> length (notes_list twoActive) = 2
   \<and> sorted (activeNotes twoActive)
   \<and> filter (\<lambda>i. i \<notin> hitNotes twoActive \<and> \<bar>pitch (notes_list twoActive ! i) - 70\<bar> \<le> 1)
        (activeNotes twoActive) = [0, 1]
   \<and> checkPitchMatch twoActive 70 =
        Inr ((processNoteHit twoActive (1 / 2))
               \<lparr> hitNotes := {0}, events := [NoteHit 0 (1 / 2)] \<rparr>)"
proof -
  have inrange: "\<forall>i\<in>set (activeNotes twoActive). i < length (notes_list twoActive)"
    by (simp add: twoActive_state)
  have cands: "filter (\<lambda>i. i \<notin> hitNotes twoActive \<and> \<bar>pitch (notes_list twoActive ! i) - 70\<bar> \<le> 1)
        (activeNotes twoActive) = [0, 1]"
    by (simp add: twoActive_state)
  have fields: "sorted (activeNotes twoActive)" "hitNotes twoActive = {}"
    "events twoActive = []" "pitch (notes_list twoActive ! 0) = 69"
    by (simp_all add: twoActive_state)
  from checkPitchMatch_first_candidate
         [OF inrange, of 70
            "(playing [noteAt 69 1, noteAt 70 (6 / 5)])
               \<lparr> gameState := (gameState (playing [noteAt 69 1, noteAt 70 (6 / 5)]))
                                 \<lparr> currentTime := 1 \<rparr> \<rparr>"]
  show ?thesis
    unfolding Let_def cands using fields twoActive_snapshot [symmetric]
    by (simp add: twoActive_state)
qed

section \<open>Play sessions: resolution is final\<close>

lemma distinct_count_list_one:
  "distinct xs \<Longrightarrow> x \<in> set xs \<Longrightarrow> count_list xs x = 1"
  by (induction xs) auto

lemma checkPitchMatch_loop_cases:
  "checkPitchMatch_loop d xs e = Inr e' \<Longrightarrow>
   e' = e
   \<or> (\<exists>i a. i \<notin> hitNotes e \<and> (a = 1 \<or> a = 1 / 2)
          \<and> e' = (processNoteHit e a)\<lparr> hitNotes := insert i (hitNotes e),
                                         events := events e @ [NoteHit i a] \<rparr>)"
proof (induction xs)
  case Nil
  then show ?case by simp
next
  case (Cons x xs)
  show ?case
  proof (cases "length (notes_list e) \<le> x")
    case True
    with Cons.prems show ?thesis by simp
  next
    case inrange: False
    define pd where "pd = \<bar>pitch (notes_list e ! x) - d\<bar>"
    show ?thesis
    proof (cases "pd \<le> 1 \<and> x \<notin> hitNotes e")
      case True
      define a where "a = 1 - real_of_int pd / 2"
      have "pd = 0 \<or> pd = 1"
        using True unfolding pd_def by linarith
      then have a: "a = 1 \<or> a = 1 / 2"
        unfolding a_def by auto
      have "e' = (processNoteHit e a)\<lparr> hitNotes := insert x (hitNotes e),
                                        events := events e @ [NoteHit x a] \<rparr>"
        using True inrange Cons.prems
        by (simp add: Let_def PITCH_TOLERANCE_def MAX_PITCH_DIFF_def processNoteHit_frame
              pd_def a_def)
      with a True show ?thesis by blast
    next
      case False
      with inrange have "checkPitchMatch_loop d (x # xs) e = checkPitchMatch_loop d xs e"
        by (auto simp: Let_def PITCH_TOLERANCE_def pd_def)
      with Cons.prems have "checkPitchMatch_loop d xs e = Inr e'"
        by simp
      then show ?thesis by (rule Cons.IH)
    qed
  qed
qed

lemma checkPitchMatch_effect:
  assumes "checkPitchMatch e d = Inr e'"
  shows "notes_list e' = notes_list e \<and> isListening e' = isListening e
         \<and> activeNotes e' = activeNotes e
         \<and> currentPitch e' = currentPitch e \<and> currentMidiNote e' = currentMidiNote e
         \<and> isPlaying (gameState e') = isPlaying (gameState e)
         \<and> currentTime (gameState e') = currentTime (gameState e)
         \<and> currentSong (gameState e') = currentSong (gameState e)
         \<and> ((events e' = events e \<and> hitNotes e' = hitNotes e
               \<and> totalNotesHit e' = totalNotesHit e \<and> totalAccuracy e' = totalAccuracy e
               \<and> gameState e' = gameState e)
              \<or> (\<exists>i a. i \<notin> hitNotes e \<and> (a = 1 \<or> a = 1 / 2)
                     \<and> events e' = events e @ [NoteHit i a]
                     \<and> hitNotes e' = insert i (hitNotes e)
                     \<and> totalNotesHit e' = totalNotesHit e + 1
                     \<and> totalAccuracy e' = totalAccuracy e + a
                     \<and> accuracy (gameState e')
                          = (totalAccuracy e + a) / real (totalNotesHit e + 1)))"
proof -
  from assms have "checkPitchMatch_loop d (activeNotes e) e = Inr e'"
    by (simp add: checkPitchMatch_def)
  then consider (same) "e' = e"
    | (hit) i a where "i \<notin> hitNotes e" "a = 1 \<or> a = 1 / 2"
        "e' = (processNoteHit e a)\<lparr> hitNotes := insert i (hitNotes e),
                                     events := events e @ [NoteHit i a] \<rparr>"
    using checkPitchMatch_loop_cases by blast
  then show ?thesis
  proof cases
    case same
    then show ?thesis by simp
  next
    case hit
    have "events e' = events e @ [NoteHit i a]" "hitNotes e' = insert i (hitNotes e)"
      "totalNotesHit e' = totalNotesHit e + 1" "totalAccuracy e' = totalAccuracy e + a"
      "accuracy (gameState e') = (totalAccuracy e + a) / real (totalNotesHit e + 1)"
      by (simp_all add: hit(3) processNoteHit_def Let_def)
    moreover have "notes_list e' = notes_list e \<and> isListening e' = isListening e
         \<and> activeNotes e' = activeNotes e
         \<and> currentPitch e' = currentPitch e \<and> currentMidiNote e' = currentMidiNote e
         \<and> isPlaying (gameState e') = isPlaying (gameState e)
         \<and> currentTime (gameState e') = currentTime (gameState e)
         \<and> currentSong (gameState e') = currentSong (gameState e)"
      by (simp add: hit(3) processNoteHit_def Let_def)
    ultimately show ?thesis using hit(1,2) by blast
  qed
qed

text \<open>What one step does to the resolution state and to the accuracy accumulators.\<close>

lemma step_DetectPitch_effect:
  "notes_list (step e (DetectPitch b sr)) = notes_list e
   \<and> isListening (step e (DetectPitch b sr)) = isListening e
   \<and> activeNotes (step e (DetectPitch b sr)) = activeNotes e
   \<and> isPlaying (gameState (step e (DetectPitch b sr))) = isPlaying (gameState e)
   \<and> currentTime (gameState (step e (DetectPitch b sr))) = currentTime (gameState e)
   \<and> currentSong (gameState (step e (DetectPitch b sr))) = currentSong (gameState e)
   \<and> ((events (step e (DetectPitch b sr)) = events e
         \<and> hitNotes (step e (DetectPitch b sr)) = hitNotes e
         \<and> totalNotesHit (step e (DetectPitch b sr)) = totalNotesHit e
         \<and> totalAccuracy (step e (DetectPitch b sr)) = totalAccuracy e
         \<and> gameState (step e (DetectPitch b sr)) = gameState e)
        \<or> (\<exists>i a. i \<notin> hitNotes e \<and> (a = 1 \<or> a = 1 / 2)
               \<and> events (step e (DetectPitch b sr)) = events e @ [NoteHit i a]
               \<and> hitNotes (step e (DetectPitch b sr)) = insert i (hitNotes e)
               \<and> totalNotesHit (step e (DetectPitch b sr)) = totalNotesHit e + 1
               \<and> totalAccuracy (step e (DetectPitch b sr)) = totalAccuracy e + a
               \<and> accuracy (gameState (step e (DetectPitch b sr)))
                    = (totalAccuracy e + a) / real (totalNotesHit e + 1)))"
proof (cases "detectPitch e b sr")
  case (Inl err)
  then show ?thesis by simp
next
  case (Inr e')
  show ?thesis
  proof (cases "isListening e \<and> 0 < autoCorrelate b sr")
    case False
    with Inr have "e' = e"
      by (auto simp: detectPitch_def Let_def split: if_splits)
    with Inr show ?thesis by simp
  next
    case True
    with Inr have "checkPitchMatch
        (e\<lparr> currentPitch := autoCorrelate b sr,
            currentMidiNote := frequencyToMidi (autoCorrelate b sr) \<rparr>)
        (frequencyToMidi (autoCorrelate b sr)) = Inr e'"
      by (simp add: detectPitch_def pitchCallback_def Let_def)
    from checkPitchMatch_effect [OF this] Inr show ?thesis
      by simp
  qed
qed

lemma updateGame_events:
  "events (updateGame e t) =
     events e
       @ (if isPlaying (gameState e)
          then map NoteMiss
                 (filter (\<lambda>i. i \<notin> hitNotes e \<and> time (notes_list e ! i) < t - HIT_WINDOW)
                    [0 ..< length (notes_list e)])
          else [])"
  by (simp add: updateGame_def updateActiveNotes_events)

lemma updateGame_hitNotes:
  "hitNotes (updateGame e t) =
     hitNotes e
       \<union> (if isPlaying (gameState e)
          then {i. i < length (notes_list e) \<and> i \<notin> hitNotes e
                   \<and> time (notes_list e ! i) < t - HIT_WINDOW}
          else {})"
  by (simp add: updateGame_def updateActiveNotes_hitNotes)

lemma updateGame_frame:
  "notes_list (updateGame e t) = notes_list e
   \<and> totalNotesHit (updateGame e t) = totalNotesHit e
   \<and> totalAccuracy (updateGame e t) = totalAccuracy e
   \<and> isListening (updateGame e t) = isListening e
   \<and> score (gameState (updateGame e t)) = score (gameState e)
   \<and> accuracy (gameState (updateGame e t)) = accuracy (gameState e)
   \<and> isPlaying (gameState (updateGame e t)) = isPlaying (gameState e)
   \<and> currentSong (gameState (updateGame e t)) = currentSong (gameState e)"
  using updateActiveNotes_frame [of "e\<lparr> gameState := (gameState e)\<lparr> currentTime := t \<rparr> \<rparr>"]
  by (simp add: updateGame_def)

lemma eventIndex_NoteMiss: "map (eventIndex \<circ> NoteMiss) xs = xs"
  by (induction xs) simp_all

lemma step_Frame_session:
  "\<exists>new. events (updateGame e t) = events e @ new
         \<and> hitNotes (updateGame e t) = hitNotes e \<union> eventIndex ` set new
         \<and> distinct (map eventIndex new)
         \<and> eventIndex ` set new \<inter> hitNotes e = {}"
proof (cases "isPlaying (gameState e)")
  case False
  then show ?thesis
    by (intro exI [of _ "[]"]) (simp add: updateGame_def)
next
  case True
  define missed where
    "missed = filter (\<lambda>i. i \<notin> hitNotes e \<and> time (notes_list e ! i) < t - HIT_WINDOW)
                [0 ..< length (notes_list e)]"
  have ev: "events (updateGame e t) = events e @ map NoteMiss missed"
    using True by (simp add: updateGame_events missed_def)
  have "set missed = {i. i < length (notes_list e) \<and> i \<notin> hitNotes e
                        \<and> time (notes_list e ! i) < t - HIT_WINDOW}"
    unfolding missed_def by auto
  then have hn: "hitNotes (updateGame e t) = hitNotes e \<union> set missed"
    using True by (simp add: updateGame_hitNotes)
  have d: "distinct missed" and disj: "set missed \<inter> hitNotes e = {}"
    unfolding missed_def by auto
  have img: "eventIndex ` set (map NoteMiss missed) = set missed"
    using eventIndex_NoteMiss [of missed, THEN arg_cong, of set]
    by (simp add: image_comp)
  show ?thesis
    using ev hn d disj img
    by (intro exI [of _ "map NoteMiss missed"]) (simp add: eventIndex_NoteMiss)
qed

lemma step_session:
  assumes "\<not> resets op"
  shows "\<exists>new. events (step e op) = events e @ new
               \<and> hitNotes (step e op) = hitNotes e \<union> eventIndex ` set new
               \<and> distinct (map eventIndex new)
               \<and> eventIndex ` set new \<inter> hitNotes e = {}
               \<and> notes_list (step e op) = notes_list e"
proof (cases op)
  case (Frame t)
  from step_Frame_session [of e t] updateGame_frame [of e t] show ?thesis
    unfolding Frame by auto
next
  case (DetectPitch b sr)
  from step_DetectPitch_effect [of e b sr]
  consider (same) "events (step e (DetectPitch b sr)) = events e"
                  "hitNotes (step e (DetectPitch b sr)) = hitNotes e"
                  "notes_list (step e (DetectPitch b sr)) = notes_list e"
    | (hit) i a where "i \<notin> hitNotes e"
        "events (step e (DetectPitch b sr)) = events e @ [NoteHit i a]"
        "hitNotes (step e (DetectPitch b sr)) = insert i (hitNotes e)"
        "notes_list (step e (DetectPitch b sr)) = notes_list e"
    by blast
  then show ?thesis
  proof cases
    case same
    then show ?thesis unfolding DetectPitch by (intro exI [of _ "[]"]) simp
  next
    case hit
    then show ?thesis unfolding DetectPitch by (intro exI [of _ "[NoteHit i a]"]) simp
  qed
next
  case StartGame
  then show ?thesis by (simp add: startGame_def)
next
  case PauseGame
  then show ?thesis by (simp add: pauseGame_def)
next
  case (LoadSong x1 x2 x3)
  with assms show ?thesis by simp
next
  case StopGame
  with assms show ?thesis by simp
qed

lemma step_resets:
  assumes "resets op"
  shows "(events (step e op) = [] \<and> hitNotes (step e op) = {})
         \<or> (events (step e op) = events e \<and> hitNotes (step e op) = hitNotes e)"
  using assms
  by (cases op)
     (auto simp: loadSong_def stopGame_def Let_def split: option.splits)

lemma step_resolution_invariant:
  assumes "eventIndex ` set (events e) = hitNotes e" "distinct (map eventIndex (events e))"
  shows "eventIndex ` set (events (step e op)) = hitNotes (step e op)
         \<and> distinct (map eventIndex (events (step e op)))"
proof (cases "resets op")
  case True
  from step_resets [OF this, of e] assms show ?thesis by auto
next
  case False
  from step_session [OF this, of e] obtain new where
    "events (step e op) = events e @ new"
    "hitNotes (step e op) = hitNotes e \<union> eventIndex ` set new"
    "distinct (map eventIndex new)"
    "eventIndex ` set new \<inter> hitNotes e = {}"
    by blast
  with assms show ?thesis
    by (auto simp: image_Un)
qed

lemma run_resolution_invariant:
  "eventIndex ` set (events e) = hitNotes e \<Longrightarrow> distinct (map eventIndex (events e)) \<Longrightarrow>
   eventIndex ` set (events (run e ops)) = hitNotes (run e ops)
   \<and> distinct (map eventIndex (events (run e ops)))"
  unfolding run_def
proof (induction ops arbitrary: e)
  case Nil
  then show ?case by simp
next
  case (Cons op ops)
  from step_resolution_invariant [OF Cons.prems, of op]
  show ?case by (simp add: Cons.IH)
qed

lemma run_session_extends:
  "\<forall>op\<in>set ops. \<not> resets op \<Longrightarrow>
   \<exists>new. events (run e ops) = events e @ new \<and> hitNotes e \<subseteq> hitNotes (run e ops)
          \<and> notes_list (run e ops) = notes_list e"
  unfolding run_def
proof (induction ops arbitrary: e)
  case Nil
  then show ?case by simp
next
  case (Cons op ops)
  then have "\<not> resets op" and rest: "\<forall>op\<in>set ops. \<not> resets op"
    by simp_all
  from step_session [OF this(1), of e] obtain new1 where
    1: "events (step e op) = events e @ new1" "hitNotes e \<subseteq> hitNotes (step e op)"
       "notes_list (step e op) = notes_list e"
    by auto
  from Cons.IH [OF rest, of "step e op"] obtain new2 where
    2: "events (foldl step (step e op) ops) = events (step e op) @ new2"
       "hitNotes (step e op) \<subseteq> hitNotes (foldl step (step e op) ops)"
       "notes_list (foldl step (step e op) ops) = notes_list (step e op)"
    by auto
  have "events (foldl step e (op # ops)) = events e @ (new1 @ new2)"
    using 1(1) 2(1) by simp
  moreover have "hitNotes e \<subseteq> hitNotes (foldl step e (op # ops))"
    using 1(2) 2(2) by simp
  moreover have "notes_list (foldl step e (op # ops)) = notes_list e"
    using 1(3) 2(3) by simp
  ultimately show ?case by blast
qed

lemma run_append: "run e (ops @ ops') = run (run e ops) ops'"
  by (simp add: run_def)

lemma newGameEngine_resolution:
  "eventIndex ` set (events newGameEngine) = hitNotes newGameEngine"
  "distinct (map eventIndex (events newGameEngine))"
  by (simp_all add: newGameEngine_def)

lemma same_index_same_event:
  assumes "distinct (map eventIndex evs)" "ev \<in> set evs" "ev' \<in> set evs"
    "eventIndex ev = eventIndex ev'"
  shows "ev = ev'"
  using assms by (meson distinct_map inj_onD)

lemma demo_frame1:
  "updateGame (playing [noteAt 69 1, noteAt 72 3]) 1 =
     \<lparr> gameState = \<lparr> currentSong = Some demoSong, score = 0, combo = 0, isPlaying = True,
                       currentTime = 1, accuracy = 0 \<rparr>,
       notes_list = [noteAt 69 1, noteAt 72 3], totalNotesHit = 0, totalAccuracy = 0,
       currentPitch = 0, currentMidiNote = 0, activeNotes = [0], hitNotes = {},
       isListening = True, events = [] \<rparr>"
  by (simp add: playing_two updateGame_def updateActiveNotes_def Let_def setAdd_def
        HIT_WINDOW_def processNoteMiss_def)

lemma demo_pitch:
  "step (updateGame (playing [noteAt 69 1, noteAt 72 3]) 1) (DetectPitch [1, 1] 440) =
     \<lparr> gameState = \<lparr> currentSong = Some demoSong, score = 150, combo = 1, isPlaying = True,
                       currentTime = 1, accuracy = 1 \<rparr>,
       notes_list = [noteAt 69 1, noteAt 72 3], totalNotesHit = 1, totalAccuracy = 1,
       currentPitch = 440, currentMidiNote = 69, activeNotes = [0], hitNotes = {0},
       isListening = True, events = [NoteHit 0 1] \<rparr>"
  by (simp add: demo_frame1 detectPitch_def autoCorrelate_ones frequencyToMidi_A4
        pitchCallback_def checkPitchMatch_def Let_def PITCH_TOLERANCE_def MAX_PITCH_DIFF_def
        processNoteHit_def hitPoints_def)

lemma demo_frame4:
  "run newGameEngine demoSession =
     \<lparr> gameState = \<lparr> currentSong = Some demoSong, score = 150, combo = 0, isPlaying = True,
                       currentTime = 4, accuracy = 1 \<rparr>,
       notes_list = [noteAt 69 1, noteAt 72 3], totalNotesHit = 1, totalAccuracy = 1,
       currentPitch = 440, currentMidiNote = 69, activeNotes = [], hitNotes = {0, 1},
       isListening = True, events = [NoteHit 0 1, NoteMiss 1] \<rparr>"
proof -
  have "run newGameEngine demoSession =
          updateGame (step (updateGame (playing [noteAt 69 1, noteAt 72 3]) 1)
                        (DetectPitch [1, 1] 440)) 4"
    by (simp add: demoSession_def run_def playing_def)
  also have "\<dots> = \<lparr> gameState = \<lparr> currentSong = Some demoSong, score = 150, combo = 0, isPlaying = True,
                       currentTime = 4, accuracy = 1 \<rparr>,
       notes_list = [noteAt 69 1, noteAt 72 3], totalNotesHit = 1, totalAccuracy = 1,
       currentPitch = 440, currentMidiNote = 69, activeNotes = [], hitNotes = {0, 1},
       isListening = True, events = [NoteHit 0 1, NoteMiss 1] \<rparr>"
    unfolding demo_pitch
    by (simp add: updateGame_def updateActiveNotes_def Let_def setAdd_def
        HIT_WINDOW_def processNoteMiss_def insert_commute)
  finally show ?thesis .
qed

text \<open>
  C4. In every reachable state the resolved set of the engine is exactly the set of the
  notes with an event in the session's trace, and no note has two events. Through the
  later operations of the same session (no load, no stop) the events recorded so far
  stay as they are and resolved notes stay resolved: a missed note gets no hit event and
  keeps its one miss event, a hit note gets no miss event and keeps its one hit event.
\<close>

theorem resolution_is_final:
  "eventIndex ` set (events (run newGameEngine ops)) = hitNotes (run newGameEngine ops)
   \<and> distinct (map eventIndex (events (run newGameEngine ops)))
   \<and> ((\<forall>op\<in>set ops'. \<not> resets op) \<longrightarrow>
         take (length (events (run newGameEngine ops))) (events (run newGameEngine (ops @ ops')))
           = events (run newGameEngine ops)
         \<and> hitNotes (run newGameEngine ops) \<subseteq> hitNotes (run newGameEngine (ops @ ops'))
         \<and> distinct (map eventIndex (events (run newGameEngine (ops @ ops'))))
         \<and> (\<forall>i. NoteMiss i \<in> set (events (run newGameEngine ops)) \<longrightarrow>
                (\<forall>a. NoteHit i a \<notin> set (events (run newGameEngine (ops @ ops'))))
                \<and> count_list (events (run newGameEngine (ops @ ops'))) (NoteMiss i) = 1)
         \<and> (\<forall>i a. NoteHit i a \<in> set (events (run newGameEngine ops)) \<longrightarrow>
                NoteMiss i \<notin> set (events (run newGameEngine (ops @ ops')))
                \<and> (\<forall>b. NoteHit i b \<in> set (events (run newGameEngine (ops @ ops'))) \<longrightarrow> b = a)
                \<and> count_list (events (run newGameEngine (ops @ ops'))) (NoteHit i a) = 1))"
proof -
  define e where "e = run newGameEngine ops"
  define e' where "e' = run newGameEngine (ops @ ops')"
  have inv: "eventIndex ` set (events e) = hitNotes e" "distinct (map eventIndex (events e))"
    unfolding e_def
    using run_resolution_invariant [OF newGameEngine_resolution, of ops] by simp_all
  have inv': "distinct (map eventIndex (events e'))"
    unfolding e'_def
    using run_resolution_invariant [OF newGameEngine_resolution, of "ops @ ops'"] by simp
  then have d': "distinct (events e')"
    by (simp add: distinct_map)
  have e': "e' = run e ops'"
    by (simp add: e_def e'_def run_append)
  have later: "take (length (events e)) (events e') = events e
         \<and> hitNotes e \<subseteq> hitNotes e'
         \<and> (\<forall>i. NoteMiss i \<in> set (events e) \<longrightarrow>
                (\<forall>a. NoteHit i a \<notin> set (events e'))
                \<and> count_list (events e') (NoteMiss i) = 1)
         \<and> (\<forall>i a. NoteHit i a \<in> set (events e) \<longrightarrow>
                NoteMiss i \<notin> set (events e')
                \<and> (\<forall>b. NoteHit i b \<in> set (events e') \<longrightarrow> b = a)
                \<and> count_list (events e') (NoteHit i a) = 1)"
    if session: "\<forall>op\<in>set ops'. \<not> resets op"
  proof -
    from run_session_extends [OF session, of e] obtain new where
      ext: "events e' = events e @ new" and sub: "hitNotes e \<subseteq> hitNotes e'"
      unfolding e' by auto
    have keep: "ev \<in> set (events e')" if "ev \<in> set (events e)" for ev
      using that ext by simp
    have uniq: "ev' = ev"
      if "ev \<in> set (events e)" "ev' \<in> set (events e')" "eventIndex ev' = eventIndex ev"
      for ev ev'
      using same_index_same_event [OF inv' that(2) keep [OF that(1)] that(3)] .
    have one: "count_list (events e') ev = 1" if "ev \<in> set (events e)" for ev
      using distinct_count_list_one [OF d' keep [OF that]] .
    have "\<forall>i. NoteMiss i \<in> set (events e) \<longrightarrow>
                (\<forall>a. NoteHit i a \<notin> set (events e'))
                \<and> count_list (events e') (NoteMiss i) = 1"
      using uniq one by fastforce
    moreover have "\<forall>i a. NoteHit i a \<in> set (events e) \<longrightarrow>
                NoteMiss i \<notin> set (events e')
                \<and> (\<forall>b. NoteHit i b \<in> set (events e') \<longrightarrow> b = a)
                \<and> count_list (events e') (NoteHit i a) = 1"
      using uniq one by fastforce
    ultimately show ?thesis
      using ext sub by simp
  qed
  show ?thesis
    using inv inv' later unfolding e_def [symmetric] e'_def [symmetric] by blast
qed

theorem resolution_is_final_witness:
  "\<not> resets (DetectPitch [1, 1] 440) \<and> \<not> resets (Frame 5) \<and> \<not> resets PauseGame
   \<and> events (run newGameEngine demoSession) = [NoteHit 0 1, NoteMiss 1]
   \<and> hitNotes (run newGameEngine demoSession) = {0, 1}
   \<and> take 2 (events (run newGameEngine
                        (demoSession @ [DetectPitch [1, 1] 440, Frame 5, PauseGame])))
       = [NoteHit 0 1, NoteMiss 1]
   \<and> count_list (events (run newGameEngine
                            (demoSession @ [DetectPitch [1, 1] 440, Frame 5, PauseGame])))
         (NoteMiss 1) = 1
   \<and> count_list (events (run newGameEngine
                            (demoSession @ [DetectPitch [1, 1] 440, Frame 5, PauseGame])))
         (NoteHit 0 1) = 1
   \<and> (\<forall>a. NoteHit 1 a \<notin> set (events (run newGameEngine
                            (demoSession @ [DetectPitch [1, 1] 440, Frame 5, PauseGame]))))
   \<and> NoteMiss 0 \<notin> set (events (run newGameEngine
                            (demoSession @ [DetectPitch [1, 1] 440, Frame 5, PauseGame])))"
proof -
  have session: "\<forall>op\<in>set [DetectPitch [1, 1] 440, Frame 5, PauseGame]. \<not> resets op"
    by simp
  have ev: "events (run newGameEngine demoSession) = [NoteHit 0 1, NoteMiss 1]"
    and hn: "hitNotes (run newGameEngine demoSession) = {0, 1}"
    by (simp_all add: demo_frame4)
  from resolution_is_final [of demoSession "[DetectPitch [1, 1] 440, Frame 5, PauseGame]"]
    session
  show ?thesis
    unfolding ev hn by (simp add: numeral_2_eq_2)
qed

section \<open>Play sessions: the running accuracy\<close>

lemma step_accuracy_invariant:
  assumes "real (totalNotesHit e) / 2 \<le> totalAccuracy e"
    "totalAccuracy e \<le> real (totalNotesHit e)"
    "accuracy (gameState e)
       = (if totalNotesHit e = 0 then 0 else totalAccuracy e / real (totalNotesHit e))"
    "\<forall>i a. NoteHit i a \<in> set (events e) \<longrightarrow> a = 1 \<or> a = 1 / 2"
  shows "real (totalNotesHit (step e op)) / 2 \<le> totalAccuracy (step e op)
    \<and> totalAccuracy (step e op) \<le> real (totalNotesHit (step e op))
    \<and> accuracy (gameState (step e op))
       = (if totalNotesHit (step e op) = 0 then 0
          else totalAccuracy (step e op) / real (totalNotesHit (step e op)))
    \<and> (\<forall>i a. NoteHit i a \<in> set (events (step e op)) \<longrightarrow> a = 1 \<or> a = 1 / 2)"
proof (cases op)
  case (LoadSong found midi stemsLoaded)
  with assms show ?thesis
    by (auto simp: loadSong_def Let_def split: option.splits)
next
  case StartGame
  with assms show ?thesis by (simp add: startGame_def)
next
  case PauseGame
  with assms show ?thesis by (simp add: pauseGame_def)
next
  case StopGame
  with assms show ?thesis by (simp add: stopGame_def)
next
  case (Frame t)
  have "\<forall>i a. NoteHit i a \<in> set (events (updateGame e t)) \<longrightarrow> a = 1 \<or> a = 1 / 2"
    using assms(4) by (auto simp: updateGame_events)
  with assms(1-3) updateGame_frame [of e t] show ?thesis
    unfolding Frame by simp
next
  case (DetectPitch b sr)
  let ?e' = "step e (DetectPitch b sr)"
  from step_DetectPitch_effect [of e b sr]
  consider (same) "events ?e' = events e" "totalNotesHit ?e' = totalNotesHit e"
      "totalAccuracy ?e' = totalAccuracy e" "gameState ?e' = gameState e"
    | (hit) i a where "a = 1 \<or> a = 1 / 2" "events ?e' = events e @ [NoteHit i a]"
        "totalNotesHit ?e' = totalNotesHit e + 1" "totalAccuracy ?e' = totalAccuracy e + a"
        "accuracy (gameState ?e') = (totalAccuracy e + a) / real (totalNotesHit e + 1)"
    by blast
  then show ?thesis
  proof cases
    case same
    with assms show ?thesis unfolding DetectPitch by simp
  next
    case hit
    have "real (totalNotesHit ?e') / 2 \<le> totalAccuracy ?e'"
      "totalAccuracy ?e' \<le> real (totalNotesHit ?e')"
      using assms(1,2) hit(1) unfolding hit(3,4) by auto
    moreover have "accuracy (gameState ?e')
       = (if totalNotesHit ?e' = 0 then 0 else totalAccuracy ?e' / real (totalNotesHit ?e'))"
      unfolding hit(3,4,5) by simp
    moreover have "\<forall>j b. NoteHit j b \<in> set (events ?e') \<longrightarrow> b = 1 \<or> b = 1 / 2"
      using assms(4) hit(1) unfolding hit(2) by auto
    ultimately show ?thesis unfolding DetectPitch by blast
  qed
qed

lemma run_accuracy_invariant:
  assumes "real (totalNotesHit e) / 2 \<le> totalAccuracy e"
    "totalAccuracy e \<le> real (totalNotesHit e)"
    "accuracy (gameState e)
       = (if totalNotesHit e = 0 then 0 else totalAccuracy e / real (totalNotesHit e))"
    "\<forall>i a. NoteHit i a \<in> set (events e) \<longrightarrow> a = 1 \<or> a = 1 / 2"
  shows "real (totalNotesHit (run e ops)) / 2 \<le> totalAccuracy (run e ops)
    \<and> totalAccuracy (run e ops) \<le> real (totalNotesHit (run e ops))
    \<and> accuracy (gameState (run e ops))
       = (if totalNotesHit (run e ops) = 0 then 0
          else totalAccuracy (run e ops) / real (totalNotesHit (run e ops)))
    \<and> (\<forall>i a. NoteHit i a \<in> set (events (run e ops)) \<longrightarrow> a = 1 \<or> a = 1 / 2)"
  using assms unfolding run_def
proof (induction ops arbitrary: e)
  case Nil
  then show ?case by simp
next
  case (Cons op ops)
  from step_accuracy_invariant [OF Cons.prems, of op]
  have "real (totalNotesHit (step e op)) / 2 \<le> totalAccuracy (step e op)"
    "totalAccuracy (step e op) \<le> real (totalNotesHit (step e op))"
    "accuracy (gameState (step e op))
       = (if totalNotesHit (step e op) = 0 then 0
          else totalAccuracy (step e op) / real (totalNotesHit (step e op)))"
    "\<forall>i a. NoteHit i a \<in> set (events (step e op)) \<longrightarrow> a = 1 \<or> a = 1 / 2"
    by simp_all
  from Cons.IH [OF this] show ?case by simp
qed

text \<open>
  C10. In every reachable state each hit event of the trace has accuracy 1 or 1/2. The
  running average accuracy is 0 while no hit has been counted; once a hit has been
  counted it is the accuracy sum over the hit count and lies between 1/2 and 1. It is
  never strictly between 0 and 1/2.
\<close>

theorem accuracy_range:
  "(\<forall>i a. NoteHit i a \<in> set (events (run newGameEngine ops)) \<longrightarrow> a = 1 \<or> a = 1 / 2)
   \<and> (totalNotesHit (run newGameEngine ops) = 0 \<longrightarrow>
         accuracy (gameState (run newGameEngine ops)) = 0)
   \<and> (0 < totalNotesHit (run newGameEngine ops) \<longrightarrow>
         accuracy (gameState (run newGameEngine ops))
           = totalAccuracy (run newGameEngine ops) / real (totalNotesHit (run newGameEngine ops))
         \<and> 1 / 2 \<le> accuracy (gameState (run newGameEngine ops))
         \<and> accuracy (gameState (run newGameEngine ops)) \<le> 1)
   \<and> \<not> (0 < accuracy (gameState (run newGameEngine ops))
          \<and> accuracy (gameState (run newGameEngine ops)) < 1 / 2)"
proof -
  define e where "e = run newGameEngine ops"
  define n where "n = totalNotesHit e"
  have inv: "real n / 2 \<le> totalAccuracy e" "totalAccuracy e \<le> real n"
    "accuracy (gameState e) = (if n = 0 then 0 else totalAccuracy e / real n)"
    "\<forall>i a. NoteHit i a \<in> set (events e) \<longrightarrow> a = 1 \<or> a = 1 / 2"
    using run_accuracy_invariant [of newGameEngine ops]
    unfolding e_def n_def by (simp_all add: newGameEngine_def)
  have pos: "1 / 2 \<le> accuracy (gameState e) \<and> accuracy (gameState e) \<le> 1" if "0 < n"
  proof -
    have "accuracy (gameState e) = totalAccuracy e / real n"
      using inv(3) that by simp
    moreover have "1 / 2 \<le> totalAccuracy e / real n"
      using inv(1) that by (simp add: field_simps)
    moreover have "totalAccuracy e / real n \<le> 1"
      using inv(2) that by (simp add: field_simps)
    ultimately show ?thesis by simp
  qed
  have zero: "accuracy (gameState e) = 0" if "n = 0"
    using inv(3) that by simp
  have "\<not> (0 < accuracy (gameState e) \<and> accuracy (gameState e) < 1 / 2)"
    using pos zero by (cases "n = 0") auto
  with pos zero inv(3,4) show ?thesis
    unfolding e_def [symmetric] n_def [symmetric] by auto
qed

theorem accuracy_range_witness:
  "totalNotesHit (run newGameEngine []) = 0
   \<and> accuracy (gameState (run newGameEngine [])) = 0
   \<and> 0 < totalNotesHit (run newGameEngine demoSession)
   \<and> NoteHit 0 1 \<in> set (events (run newGameEngine demoSession))
   \<and> accuracy (gameState (run newGameEngine demoSession)) = 1
   \<and> 1 / 2 \<le> accuracy (gameState (run newGameEngine demoSession))
   \<and> accuracy (gameState (run newGameEngine demoSession)) \<le> 1"
proof -
  have "totalNotesHit (run newGameEngine []) = 0"
    by (simp add: run_def newGameEngine_def)
  moreover have "0 < totalNotesHit (run newGameEngine demoSession)"
    "NoteHit 0 1 \<in> set (events (run newGameEngine demoSession))"
    "accuracy (gameState (run newGameEngine demoSession)) = 1"
    by (simp_all add: demo_frame4)
  ultimately show ?thesis
    using accuracy_range [of "[]"] accuracy_range [of demoSession] by simp
qed

section \<open>Expiry\<close>

text \<open>
  C3 (amended). Take, in a reachable state in which the game is playing, a loaded note with
  onset \<open>T\<close> that is unresolved. An expiry evaluation (one frame of the game loop) at
  current time \<open>t\<close> leaves it unresolved, with no miss event, when \<open>t \<le> T + 0.5\<close>; when
  \<open>t > T + 0.5\<close> it marks the note missed with exactly one miss event, and through all
  later operations of the same play session, that is until a song load or a stop resets
  the resolution state, the note stays resolved, keeps that single miss event and gets no
  hit event.
\<close>

theorem note_expiry:
  assumes "e = run newGameEngine ops0"
    "isPlaying (gameState e)" "i < length (notes_list e)" "i \<notin> hitNotes e"
    "\<forall>op\<in>set ops. \<not> resets op"
  shows "(t \<le> time (notes_list e ! i) + 1 / 2 \<longrightarrow>
            i \<notin> hitNotes (updateGame e t) \<and> NoteMiss i \<notin> set (events (updateGame e t)))
         \<and> (time (notes_list e ! i) + 1 / 2 < t \<longrightarrow>
            i \<in> hitNotes (updateGame e t)
            \<and> count_list (events (updateGame e t)) (NoteMiss i) = 1
            \<and> count_list (events (run (updateGame e t) ops)) (NoteMiss i) = 1
            \<and> i \<in> hitNotes (run (updateGame e t) ops)
            \<and> (\<forall>a. NoteHit i a \<notin> set (events (run (updateGame e t) ops))))"
proof -
  let ?T = "time (notes_list e ! i)"
  let ?e1 = "updateGame e t"
  let ?e2 = "run ?e1 ops"
  have inv: "eventIndex ` set (events e) = hitNotes e" "distinct (map eventIndex (events e))"
    unfolding assms(1)
    using run_resolution_invariant [OF newGameEngine_resolution, of ops0] by simp_all
  have fresh: "NoteMiss i \<notin> set (events e)"
  proof
    assume "NoteMiss i \<in> set (events e)"
    then have "eventIndex (NoteMiss i) \<in> eventIndex ` set (events e)"
      by (rule imageI)
    with assms(4) inv(1) show False by simp
  qed
  have early: "i \<notin> hitNotes ?e1 \<and> NoteMiss i \<notin> set (events ?e1)" if "t \<le> ?T + 1 / 2"
    using that assms(4) fresh
    by (auto simp: updateGame_hitNotes updateGame_events HIT_WINDOW_def)
  have late: "i \<in> hitNotes ?e1
            \<and> count_list (events ?e1) (NoteMiss i) = 1
            \<and> count_list (events ?e2) (NoteMiss i) = 1
            \<and> i \<in> hitNotes ?e2
            \<and> (\<forall>a. NoteHit i a \<notin> set (events ?e2))" if "?T + 1 / 2 < t"
  proof -
    have in1: "i \<in> hitNotes ?e1" and ev1: "NoteMiss i \<in> set (events ?e1)"
      using that assms(2,3,4)
      by (auto simp: updateGame_hitNotes updateGame_events HIT_WINDOW_def)
    have inv1: "eventIndex ` set (events ?e1) = hitNotes ?e1"
      "distinct (map eventIndex (events ?e1))"
      using step_resolution_invariant [OF inv, of "Frame t"] by simp_all
    have inv2: "distinct (map eventIndex (events ?e2))"
      using run_resolution_invariant [OF inv1, of ops] by simp
    from run_session_extends [OF assms(5), of ?e1] obtain new where
      ext: "events ?e2 = events ?e1 @ new" and sub: "hitNotes ?e1 \<subseteq> hitNotes ?e2"
      by auto
    have ev2: "NoteMiss i \<in> set (events ?e2)"
      using ev1 ext by simp
    have c1: "count_list (events ?e1) (NoteMiss i) = 1"
      using distinct_count_list_one [OF _ ev1] inv1(2) by (simp add: distinct_map)
    have c2: "count_list (events ?e2) (NoteMiss i) = 1"
      using distinct_count_list_one [OF _ ev2] inv2 by (simp add: distinct_map)
    have "NoteHit i a \<notin> set (events ?e2)" for a
    proof
      assume "NoteHit i a \<in> set (events ?e2)"
      from same_index_same_event [OF inv2 this ev2] show False by simp
    qed
    with in1 c1 c2 sub show ?thesis by auto
  qed
  from early late show ?thesis by blast
qed

theorem note_expiry_witness:
  "playing [noteAt 69 1, noteAt 72 3]
     = run newGameEngine
         [LoadSong (Some demoSong) (Some [noteAt 69 1, noteAt 72 3]) True, StartGame]
   \<and> isPlaying (gameState (playing [noteAt 69 1, noteAt 72 3]))
   \<and> 0 < length (notes_list (playing [noteAt 69 1, noteAt 72 3]))
   \<and> 0 \<notin> hitNotes (playing [noteAt 69 1, noteAt 72 3])
   \<and> \<not> resets (Frame 5) \<and> \<not> resets PauseGame
   \<and> 3 / 2 \<le> time (notes_list (playing [noteAt 69 1, noteAt 72 3]) ! 0) + 1 / 2
   \<and> 0 \<notin> hitNotes (updateGame (playing [noteAt 69 1, noteAt 72 3]) (3 / 2))
   \<and> time (notes_list (playing [noteAt 69 1, noteAt 72 3]) ! 0) + 1 / 2 < 2
   \<and> 0 \<in> hitNotes (updateGame (playing [noteAt 69 1, noteAt 72 3]) 2)
   \<and> count_list (events (updateGame (playing [noteAt 69 1, noteAt 72 3]) 2)) (NoteMiss 0) = 1
   \<and> count_list (events (run (updateGame (playing [noteAt 69 1, noteAt 72 3]) 2)
                             [Frame 5, PauseGame])) (NoteMiss 0) = 1"
proof -
  let ?w = "playing [noteAt 69 1, noteAt 72 3]"
  have r: "?w = run newGameEngine
                  [LoadSong (Some demoSong) (Some [noteAt 69 1, noteAt 72 3]) True, StartGame]"
    by (simp add: playing_def)
  have h: "isPlaying (gameState ?w)" "0 < length (notes_list ?w)" "0 \<notin> hitNotes ?w"
    "\<forall>op\<in>set [Frame 5, PauseGame]. \<not> resets op"
    by (simp_all add: playing_two)
  have t: "3 / 2 \<le> time (notes_list ?w ! 0) + 1 / 2" "time (notes_list ?w ! 0) + 1 / 2 < 2"
    by (simp_all add: playing_two)
  from note_expiry [OF r h, of "3 / 2"] note_expiry [OF r h, of 2] h t r show ?thesis
    by simp
qed

lemma expired_once:
  "updateGame (playing [noteAt 60 1, noteAt 64 3]) 2 =
     \<lparr> gameState = \<lparr> currentSong = Some demoSong, score = 0, combo = 0, isPlaying = True,
                       currentTime = 2, accuracy = 0 \<rparr>,
       notes_list = [noteAt 60 1, noteAt 64 3], totalNotesHit = 0, totalAccuracy = 0,
       currentPitch = 0, currentMidiNote = 0, activeNotes = [], hitNotes = {0},
       isListening = True, events = [NoteMiss 0] \<rparr>"
  by (simp add: playing_two updateGame_def updateActiveNotes_def Let_def setAdd_def
        HIT_WINDOW_def processNoteMiss_def)

text \<open>
  At current time 1.5 a note with onset 1.0 is not expired: it is still in the active
  set. And a note that has expired expires again in the next play session: a stop empties
  the resolved set and keeps the notes, so after stop and start a frame at time 2 reports
  the note with onset 1.0 missed once more.
\<close>

theorem boundary_not_expired_counterexample:
  "(3 / 2 :: real) \<ge> time (noteAt 60 1) + 1 / 2
   \<and> 0 \<notin> hitNotes (updateGame (playing [noteAt 60 1, noteAt 64 2]) (3 / 2))
   \<and> events (updateGame (playing [noteAt 60 1, noteAt 64 2]) (3 / 2)) = []
   \<and> 0 \<in> set (activeNotes (updateGame (playing [noteAt 60 1, noteAt 64 2]) (3 / 2)))
   \<and> events (updateGame (playing [noteAt 60 1, noteAt 64 3]) 2) = [NoteMiss 0]
   \<and> hitNotes (updateGame (playing [noteAt 60 1, noteAt 64 3]) 2) = {0}
   \<and> hitNotes (run (updateGame (playing [noteAt 60 1, noteAt 64 3]) 2) [StopGame, StartGame]) = {}
   \<and> events (run (updateGame (playing [noteAt 60 1, noteAt 64 3]) 2) [StopGame, StartGame]) = []
   \<and> events (run (updateGame (playing [noteAt 60 1, noteAt 64 3]) 2)
                 [StopGame, StartGame, Frame 2]) = [NoteMiss 0]
   \<and> hitNotes (run (updateGame (playing [noteAt 60 1, noteAt 64 3]) 2)
                   [StopGame, StartGame, Frame 2]) = {0}"
proof -
  have boundary: "(3 / 2 :: real) \<ge> time (noteAt 60 1) + 1 / 2
   \<and> 0 \<notin> hitNotes (updateGame (playing [noteAt 60 1, noteAt 64 2]) (3 / 2))
   \<and> events (updateGame (playing [noteAt 60 1, noteAt 64 2]) (3 / 2)) = []
   \<and> 0 \<in> set (activeNotes (updateGame (playing [noteAt 60 1, noteAt 64 2]) (3 / 2)))"
    by (simp add: updateGame_def updateActiveNotes_hitNotes updateActiveNotes_activeNotes
        updateActiveNotes_events playing_two HIT_WINDOW_def)
  have again: "run (updateGame (playing [noteAt 60 1, noteAt 64 3]) 2) [StopGame, StartGame] =
     \<lparr> gameState = \<lparr> currentSong = Some demoSong, score = 0, combo = 0, isPlaying = True,
                       currentTime = 0, accuracy = 0 \<rparr>,
       notes_list = [noteAt 60 1, noteAt 64 3], totalNotesHit = 0, totalAccuracy = 0,
       currentPitch = 0, currentMidiNote = 0, activeNotes = [], hitNotes = {},
       isListening = True, events = [] \<rparr>"
    by (simp add: expired_once run_def stopGame_def startGame_def)
  have "run (updateGame (playing [noteAt 60 1, noteAt 64 3]) 2) [StopGame, StartGame, Frame 2]
          = updateGame (run (updateGame (playing [noteAt 60 1, noteAt 64 3]) 2)
                          [StopGame, StartGame]) 2"
    by (simp add: run_def)
  also have "\<dots> =
     \<lparr> gameState = \<lparr> currentSong = Some demoSong, score = 0, combo = 0, isPlaying = True,
                       currentTime = 2, accuracy = 0 \<rparr>,
       notes_list = [noteAt 60 1, noteAt 64 3], totalNotesHit = 0, totalAccuracy = 0,
       currentPitch = 0, currentMidiNote = 0, activeNotes = [], hitNotes = {0},
       isListening = True, events = [NoteMiss 0] \<rparr>"
    unfolding again
    by (simp add: updateGame_def updateActiveNotes_def Let_def setAdd_def
        HIT_WINDOW_def processNoteMiss_def)
  finally have second: "run (updateGame (playing [noteAt 60 1, noteAt 64 3]) 2)
                          [StopGame, StartGame, Frame 2] =
     \<lparr> gameState = \<lparr> currentSong = Some demoSong, score = 0, combo = 0, isPlaying = True,
                       currentTime = 2, accuracy = 0 \<rparr>,
       notes_list = [noteAt 60 1, noteAt 64 3], totalNotesHit = 0, totalAccuracy = 0,
       currentPitch = 0, currentMidiNote = 0, activeNotes = [], hitNotes = {0},
       isListening = True, events = [NoteMiss 0] \<rparr>" .
  have once: "events (updateGame (playing [noteAt 60 1, noteAt 64 3]) 2) = [NoteMiss 0]"
    "hitNotes (updateGame (playing [noteAt 60 1, noteAt 64 3]) 2) = {0}"
    by (simp_all add: expired_once)
  have cleared:
    "hitNotes (run (updateGame (playing [noteAt 60 1, noteAt 64 3]) 2) [StopGame, StartGame]) = {}"
    "events (run (updateGame (playing [noteAt 60 1, noteAt 64 3]) 2) [StopGame, StartGame]) = []"
    by (simp_all add: again)
  have twice:
    "events (run (updateGame (playing [noteAt 60 1, noteAt 64 3]) 2)
               [StopGame, StartGame, Frame 2]) = [NoteMiss 0]"
    "hitNotes (run (updateGame (playing [noteAt 60 1, noteAt 64 3]) 2)
                 [StopGame, StartGame, Frame 2]) = {0}"
    by (simp_all add: second)
  from boundary once cleared twice show ?thesis
    by blast
qed

section \<open>Loading a song\<close>

text \<open>
  C8 (amended). After every successful song load the score, the combo, the running
  accuracy and its two accumulators are 0, the active set and the resolved set are empty,
  the current song is the loaded one and the notes are the sorted notes of its track. The
  load does not touch the current time or the playing flag: they keep the values they had
  before the load, which are 0 and false when the load follows the construction of the
  engine or a stop.
\<close>

theorem loadSong_resets:
  "loadSong e found midi stemsLoaded = (None, e') \<Longrightarrow>
   score (gameState e') = 0 \<and> combo (gameState e') = 0 \<and> accuracy (gameState e') = 0
   \<and> totalNotesHit e' = 0 \<and> totalAccuracy e' = 0
   \<and> activeNotes e' = [] \<and> hitNotes e' = {} \<and> events e' = []
   \<and> currentSong (gameState e') = found
   \<and> map_option getNotes midi = Some (notes_list e')
   \<and> currentTime (gameState e') = currentTime (gameState e)
   \<and> isPlaying (gameState e') = isPlaying (gameState e)
   \<and> (e = newGameEngine \<or> e = stopGame e0 \<longrightarrow>
         currentTime (gameState e') = 0 \<and> \<not> isPlaying (gameState e'))"
  by (auto simp: loadSong_def Let_def newGameEngine_def stopGame_def
        split: option.splits if_splits)

theorem loadSong_resets_witness:
  "loadSong newGameEngine (Some demoSong) (Some [noteAt 72 3, noteAt 69 1]) True
     = (None, snd (loadSong newGameEngine (Some demoSong) (Some [noteAt 72 3, noteAt 69 1]) True))
   \<and> score (gameState (snd (loadSong newGameEngine (Some demoSong)
                                 (Some [noteAt 72 3, noteAt 69 1]) True))) = 0
   \<and> hitNotes (snd (loadSong newGameEngine (Some demoSong)
                        (Some [noteAt 72 3, noteAt 69 1]) True)) = {}
   \<and> notes_list (snd (loadSong newGameEngine (Some demoSong)
                          (Some [noteAt 72 3, noteAt 69 1]) True)) = [noteAt 69 1, noteAt 72 3]
   \<and> currentTime (gameState (snd (loadSong newGameEngine (Some demoSong)
                                       (Some [noteAt 72 3, noteAt 69 1]) True))) = 0
   \<and> \<not> isPlaying (gameState (snd (loadSong newGameEngine (Some demoSong)
                                       (Some [noteAt 72 3, noteAt 69 1]) True)))"
proof -
  have ok: "loadSong newGameEngine (Some demoSong) (Some [noteAt 72 3, noteAt 69 1]) True
     = (None, snd (loadSong newGameEngine (Some demoSong) (Some [noteAt 72 3, noteAt 69 1]) True))"
    by (simp add: loadSong_def Let_def)
  have sorted: "getNotes [noteAt 72 3, noteAt 69 1] = [noteAt 69 1, noteAt 72 3]"
    by (simp add: getNotes_def)
  from loadSong_resets [OF ok, of newGameEngine] ok sorted show ?thesis
    by (simp add: newGameEngine_def)
qed

text \<open>
  A load issued while a song is playing succeeds and leaves the engine playing, with the
  clock where it was.
\<close>

theorem loadSong_while_playing_counterexample:
  "fst (loadSong (updateGame (playing [noteAt 69 1, noteAt 72 3]) 5)
          (Some demoSong) (Some [noteAt 69 1]) True) = None
   \<and> isPlaying (gameState (snd (loadSong (updateGame (playing [noteAt 69 1, noteAt 72 3]) 5)
                                    (Some demoSong) (Some [noteAt 69 1]) True)))
   \<and> currentTime (gameState (snd (loadSong (updateGame (playing [noteAt 69 1, noteAt 72 3]) 5)
                                      (Some demoSong) (Some [noteAt 69 1]) True))) = 5"
proof -
  have "isPlaying (gameState (updateGame (playing [noteAt 69 1, noteAt 72 3]) 5))"
    using updateGame_frame [of "playing [noteAt 69 1, noteAt 72 3]" 5]
    by (simp add: playing_two)
  moreover have "currentTime (gameState (updateGame (playing [noteAt 69 1, noteAt 72 3]) 5)) = 5"
    using updateActiveNotes_frame
            [of "(playing [noteAt 69 1, noteAt 72 3])
                   \<lparr> gameState := (gameState (playing [noteAt 69 1, noteAt 72 3]))
                                     \<lparr> currentTime := 5 \<rparr> \<rparr>"]
    by (simp add: updateGame_def playing_two)
  ultimately show ?thesis
    by (simp add: loadSong_def Let_def)
qed

end
